theory Spec2Isabelle
  imports Main "HOL-Library.Word"
begin

section \<open>Data model (src/types.ts)\<close>

text \<open>
  The fields typed \<open>number | bigint\<close> hold what the parser stores there: the result of
  \<open>getUint32\<close> (a number below \<open>2^32\<close>) in a classic file, the result of
  \<open>getBigUint64\<close> (a bigint below \<open>2^64\<close>) in a BigTIFF file. Both are unsigned
  integers below \<open>2^64\<close> and are modelled as 64-bit words; \<open>tag\<close> and \<open>type\<close> come
  from \<open>getUint16\<close>. The field \<open>value\<close> of \<open>IfdEntry\<close> is called \<open>val\<close> here.
\<close>

record TiffHeader =
  bigTiff :: bool
  littleEndian :: bool
  firstIfdOffset :: "64 word"

record IfdEntry =
  tag :: "16 word"
  type :: "16 word"
  count :: "64 word"
  val :: "64 word"

record Ifd =
  offset :: "64 word"
  entries :: "IfdEntry list"
  nextIfdOffset :: "64 word"

record TiffStructure =
  header :: TiffHeader
  ifds :: "Ifd list"

record ValidationResult =
  valid :: bool
  errors :: "string list"
  warnings :: "string list"

section \<open>The JavaScript primitives the code relies on\<close>

text \<open>
  An exception is a value: \<open>Error msg\<close> is \<open>throw new Error(msg)\<close>, \<open>RangeError\<close> is
  what a \<open>DataView\<close> getter throws when the bytes it is asked for do not lie inside
  the view.
\<close>

datatype error = Error string | RangeError

type_synonym DataView = "8 word list"

text \<open>Big-endian value of a byte sequence.\<close>

definition be_nat :: "8 word list \<Rightarrow> nat" where
  "be_nat bs = foldl (\<lambda>acc b. acc * 256 + unat b) 0 bs"

text \<open>
  \<open>getUint view pos n le\<close>: the \<open>n\<close> bytes at \<open>pos\<close>, read in the byte order \<open>le\<close>;
  a \<open>RangeError\<close> when \<open>pos + n\<close> exceeds the length of the view.
\<close>

definition getUint :: "DataView \<Rightarrow> nat \<Rightarrow> nat \<Rightarrow> bool \<Rightarrow> error + nat" where
  "getUint view pos n le =
     (if pos + n > length view then Inl RangeError
      else let bs = take n (drop pos view)
           in Inr (be_nat (if le then rev bs else bs)))"

definition getUint16 :: "DataView \<Rightarrow> nat \<Rightarrow> bool \<Rightarrow> error + 16 word" where
  "getUint16 view pos le =
     (case getUint view pos 2 le of Inl e \<Rightarrow> Inl e | Inr n \<Rightarrow> Inr (word_of_nat n))"

definition getUint32 :: "DataView \<Rightarrow> nat \<Rightarrow> bool \<Rightarrow> error + 32 word" where
  "getUint32 view pos le =
     (case getUint view pos 4 le of Inl e \<Rightarrow> Inl e | Inr n \<Rightarrow> Inr (word_of_nat n))"

definition getBigUint64 :: "DataView \<Rightarrow> nat \<Rightarrow> bool \<Rightarrow> error + 64 word" where
  "getBigUint64 view pos le =
     (case getUint view pos 8 le of Inl e \<Rightarrow> Inl e | Inr n \<Rightarrow> Inr (word_of_nat n))"

text \<open>
  \<open>Number(x)\<close> of a non-negative integer: the nearest double, ties to the even
  significand. Integers below \<open>2^53\<close> are doubles; above, the value keeps its 53
  leading bits, rounded. The result is again an integer. \<open>bitlen n\<close> is the number of
  binary digits of \<open>n\<close>.
\<close>

fun bitlen :: "nat \<Rightarrow> nat" where
  "bitlen n = (if n = 0 then 0 else Suc (bitlen (n div 2)))"

declare bitlen.simps [simp del]

definition toNumber :: "nat \<Rightarrow> nat" where
  "toNumber n =
     (if n < 2 ^ 53 then n
      else let e = bitlen n - 53;
               q = n div 2 ^ e;
               r = n mod 2 ^ e;
               h = 2 ^ (e - 1)
           in (if r < h \<or> (r = h \<and> even q) then q else q + 1) * 2 ^ e)"

text \<open>Decimal rendering of a non-negative integer, as a template literal does it.\<close>

definition digit :: "nat \<Rightarrow> char" where
  "digit d = ''0123456789'' ! d"

fun show_nat :: "nat \<Rightarrow> string" where
  "show_nat n = (if n < 10 then [digit n] else show_nat (n div 10) @ [digit (n mod 10)])"

declare show_nat.simps [simp del]

text \<open>
  \<open>Math.max(...xs)\<close> and \<open>Math.min(...xs)\<close> on non-negative numbers. The code calls
  \<open>Math.max\<close> on a list it has checked to be non-empty, where folding from 0 gives the
  maximum, and \<open>Math.min\<close> under the guard \<open>tileDataOffsets.length > 0\<close>; the value
  on the empty list (\<open>-Infinity\<close> and \<open>Infinity\<close> in JavaScript) is never used.
\<close>

definition Math_max :: "nat list \<Rightarrow> nat" where
  "Math_max xs = foldl max 0 xs"

fun Math_min :: "nat list \<Rightarrow> nat" where
  "Math_min [] = 0"
| "Math_min (x # xs) = foldl min x xs"

section \<open>The validator (src/validator.ts)\<close>

definition TileWidth :: "16 word" where "TileWidth = 322"
definition TileLength :: "16 word" where "TileLength = 323"
definition TileOffsets :: "16 word" where "TileOffsets = 324"
definition TileByteCounts :: "16 word" where "TileByteCounts = 325"

text \<open>\<open>ifd.entries.find((e) => e.tag === tagId)\<close>, then \<open>entry?.value\<close>.\<close>

definition getTagValue :: "Ifd \<Rightarrow> 16 word \<Rightarrow> 64 word option" where
  "getTagValue ifd tagId =
     (case find (\<lambda>e. tag e = tagId) (entries ifd) of
        None \<Rightarrow> None
      | Some entry \<Rightarrow> Some (val entry))"

definition isTiled :: "Ifd \<Rightarrow> bool" where
  "isTiled ifd =
     (let hasTileWidth = (getTagValue ifd TileWidth \<noteq> None);
          hasTileLength = (getTagValue ifd TileLength \<noteq> None);
          hasTileOffsets = (getTagValue ifd TileOffsets \<noteq> None)
      in hasTileWidth \<and> hasTileLength \<and> hasTileOffsets)"

definition estimateIfdSize :: "Ifd \<Rightarrow> nat" where
  "estimateIfdSize ifd =
     (let entrySize = 12; overhead = 6
      in overhead + length (entries ifd) * entrySize)"

text \<open>The first \<open>forEach\<close> of \<open>validate\<close>: \<open>index\<close> counts the directories from 0.\<close>

fun tiledErrors :: "Ifd list \<Rightarrow> nat \<Rightarrow> string list \<Rightarrow> string list" where
  "tiledErrors [] index errs = errs"
| "tiledErrors (ifd # rest) index errs =
     tiledErrors rest (index + 1)
       (if \<not> isTiled ifd
        then (let label = (if index = 0 then ''Main image'' else ''Overview '' @ show_nat index)
              in errs @ [label @ '' is not tiled''])
        else errs)"

text \<open>The second \<open>forEach\<close>: the values of the tile-offsets tags, as numbers.\<close>

fun collectTileOffsets :: "Ifd list \<Rightarrow> nat list \<Rightarrow> nat list" where
  "collectTileOffsets [] tileDataOffsets = tileDataOffsets"
| "collectTileOffsets (ifd # rest) tileDataOffsets =
     collectTileOffsets rest
       (case getTagValue ifd TileOffsets of
          None \<Rightarrow> tileDataOffsets
        | Some offsetValue \<Rightarrow> tileDataOffsets @ [toNumber (unat offsetValue)])"

definition validate :: "TiffStructure \<Rightarrow> ValidationResult" where
  "validate structure =
     (if length (ifds structure) = 0
      then \<lparr>valid = False, errors = [''No IFDs found in file''], warnings = []\<rparr>
      else
        let errs = tiledErrors (ifds structure) 0 [];
            ifdOffsets = map (\<lambda>ifd. toNumber (unat (offset ifd))) (ifds structure);
            lastIfdEnd = toNumber (Math_max ifdOffsets + estimateIfdSize (last (ifds structure)));
            tileDataOffsets = collectTileOffsets (ifds structure) [];
            warns = (if length tileDataOffsets > 0 \<and> Math_min tileDataOffsets < lastIfdEnd
                     then [''Tile data may be interleaved with IFDs.'']
                     else [])
        in \<lparr>valid = (length errs = 0), errors = errs, warnings = warns\<rparr>)"

section \<open>The parser (src/tiff-parser.ts)\<close>

text \<open>
  The positions \<open>pos\<close> and the loop counter \<open>i\<close> are JavaScript numbers. A read
  succeeds only inside the view, whose length is below \<open>2^53\<close>, so on every path that
  goes on they are integers below \<open>2^53\<close> and \<open>+\<close> on them is exact.
\<close>

definition parseHeader :: "DataView \<Rightarrow> error + TiffHeader" where
  "parseHeader view =
     (case getUint16 view 0 False of
        Inl e \<Rightarrow> Inl e
      | Inr byteOrder \<Rightarrow>
          if byteOrder \<noteq> 0x4949 \<and> byteOrder \<noteq> 0x4d4d
          then Inl (Error ''Not a valid TIFF file: bad byte order marker'')
          else
            let le = (byteOrder = 0x4949) in
            (case getUint16 view 2 le of
               Inl e \<Rightarrow> Inl e
             | Inr magic \<Rightarrow>
                 if magic \<noteq> 42 \<and> magic \<noteq> 43
                 then Inl (Error (''Not a valid TIFF file: bad magic number '' @ show_nat (unat magic)))
                 else
                   let big = (magic = 43) in
                   (case (if big then getBigUint64 view 8 le
                          else (case getUint32 view 4 le of
                                  Inl e \<Rightarrow> Inl e
                                | Inr n \<Rightarrow> Inr (ucast n))) of
                      Inl e \<Rightarrow> Inl e
                    | Inr firstOff \<Rightarrow>
                        Inr \<lparr>bigTiff = big, littleEndian = le, firstIfdOffset = firstOff\<rparr>)))"

definition parseIfdEntry :: "DataView \<Rightarrow> nat \<Rightarrow> TiffHeader \<Rightarrow> error + IfdEntry" where
  "parseIfdEntry view pos hdr =
     (let le = littleEndian hdr in
      case getUint16 view pos le of
        Inl e \<Rightarrow> Inl e
      | Inr t \<Rightarrow>
          (case getUint16 view (pos + 2) le of
             Inl e \<Rightarrow> Inl e
           | Inr ty \<Rightarrow>
               if bigTiff hdr
               then (case getBigUint64 view (pos + 4) le of
                       Inl e \<Rightarrow> Inl e
                     | Inr c \<Rightarrow>
                         (case getBigUint64 view (pos + 12) le of
                            Inl e \<Rightarrow> Inl e
                          | Inr v \<Rightarrow> Inr \<lparr>tag = t, type = ty, count = c, val = v\<rparr>))
               else (case getUint32 view (pos + 4) le of
                       Inl e \<Rightarrow> Inl e
                     | Inr c \<Rightarrow>
                         (case getUint32 view (pos + 8) le of
                            Inl e \<Rightarrow> Inl e
                          | Inr v \<Rightarrow>
                              Inr \<lparr>tag = t, type = ty, count = ucast c, val = ucast v\<rparr>))))"

text \<open>The \<open>for\<close> loop of \<open>parseIfd\<close>; it returns the entries and the position after them.\<close>

function parseIfd_entries ::
  "DataView \<Rightarrow> TiffHeader \<Rightarrow> nat \<Rightarrow> nat \<Rightarrow> nat \<Rightarrow> IfdEntry list \<Rightarrow> error + (IfdEntry list \<times> nat)"
where
  "parseIfd_entries view hdr entryCount i pos ents =
     (if i < entryCount
      then (case parseIfdEntry view pos hdr of
              Inl e \<Rightarrow> Inl e
            | Inr entry \<Rightarrow>
                parseIfd_entries view hdr entryCount (i + 1)
                  (pos + (if bigTiff hdr then 20 else 12)) (ents @ [entry]))
      else Inr (ents, pos))"
  by pat_completeness auto
termination
  by (relation "measure (\<lambda>(view, hdr, entryCount, i, pos, ents). entryCount - i)") auto

declare parseIfd_entries.simps [simp del]

definition parseIfd :: "DataView \<Rightarrow> 64 word \<Rightarrow> TiffHeader \<Rightarrow> error + Ifd" where
  "parseIfd view off hdr =
     (let le = littleEndian hdr;
          pos = toNumber (unat off)
      in case (if bigTiff hdr
               then (case getBigUint64 view pos le of
                       Inl e \<Rightarrow> Inl e
                     | Inr c \<Rightarrow> Inr (toNumber (unat c), pos + 8))
               else (case getUint16 view pos le of
                       Inl e \<Rightarrow> Inl e
                     | Inr c \<Rightarrow> Inr (unat c, pos + 2))) of
           Inl e \<Rightarrow> Inl e
         | Inr (entryCount, pos1) \<Rightarrow>
             (case parseIfd_entries view hdr entryCount 0 pos1 [] of
                Inl e \<Rightarrow> Inl e
              | Inr (ents, pos2) \<Rightarrow>
                  (case (if bigTiff hdr then getBigUint64 view pos2 le
                         else (case getUint32 view pos2 le of
                                 Inl e \<Rightarrow> Inl e
                               | Inr n \<Rightarrow> Inr (ucast n))) of
                     Inl e \<Rightarrow> Inl e
                   | Inr nextOff \<Rightarrow>
                       Inr \<lparr>offset = off, entries = ents, nextIfdOffset = nextOff\<rparr>)))"

definition MAX_IFDS :: nat where
  "MAX_IFDS = 1000"

text \<open>
  The \<open>while\<close> loop of \<open>parseAllIfds\<close>, on its state: the directories read so far,
  the set of the offsets seen and the current offset. Every round that goes on makes
  the list longer and the list never passes \<open>MAX_IFDS\<close>, which is the measure.
\<close>

function parseAllIfds_loop ::
  "DataView \<Rightarrow> TiffHeader \<Rightarrow> Ifd list \<Rightarrow> 64 word set \<Rightarrow> 64 word \<Rightarrow> error + Ifd list"
where
  "parseAllIfds_loop view hdr acc seenOffsets currentOffset =
     (if currentOffset \<noteq> 0
      then
        if length acc \<ge> MAX_IFDS
        then Inl (Error (''Esceeded maximum IFD count ('' @ show_nat MAX_IFDS
                          @ ''), file may be malformed''))
        else if currentOffset \<in> seenOffsets
        then Inl (Error (''Circular IFD reference detected at offset ''
                          @ show_nat (unat currentOffset)))
        else (case parseIfd view currentOffset hdr of
                Inl e \<Rightarrow> Inl e
              | Inr ifd \<Rightarrow>
                  parseAllIfds_loop view hdr (acc @ [ifd])
                    (insert currentOffset seenOffsets) (nextIfdOffset ifd))
      else Inr acc)"
  by pat_completeness auto
termination
  by (relation "measure (\<lambda>(view, hdr, acc, seenOffsets, currentOffset). MAX_IFDS - length acc)")
     auto

declare parseAllIfds_loop.simps [simp del]

definition parseAllIfds :: "DataView \<Rightarrow> TiffHeader \<Rightarrow> error + Ifd list" where
  "parseAllIfds view hdr = parseAllIfds_loop view hdr [] {} (firstIfdOffset hdr)"

definition parseTiff :: "DataView \<Rightarrow> error + TiffStructure" where
  "parseTiff buffer =
     (case parseHeader buffer of
        Inl e \<Rightarrow> Inl e
      | Inr hdr \<Rightarrow>
          (case parseAllIfds buffer hdr of
             Inl e \<Rightarrow> Inl e
           | Inr ds \<Rightarrow> Inr \<lparr>header = hdr, ifds = ds\<rparr>))"

section \<open>What the specification says, for comparison with the code\<close>

text \<open>
  The message the specification gives the directory at \<open>index\<close> that is not tiled:
  \<open>Main image is not tiled\<close> at index 0, \<open>Overview <index> is not tiled\<close> above.
\<close>

definition spec_tiledError :: "nat \<Rightarrow> string" where
  "spec_tiledError i =
     (if i = 0 then ''Main image is not tiled''
      else ''Overview '' @ show_nat i @ '' is not tiled'')"

text \<open>
  The estimated end of the metadata in the specification's words, on unsigned 64-bit
  offsets: the maximum \<open>selfOffset\<close> of all directories plus \<open>6 + 12 \<times> entryCount\<close> of
  the last directory.
\<close>

definition spec_lastIfdEnd :: "Ifd list \<Rightarrow> nat" where
  "spec_lastIfdEnd ds =
     Max (set (map (\<lambda>d. unat (offset d)) ds)) + (6 + 12 * length (entries (last ds)))"

text \<open>The tile-data offsets: the value of the first entry with tag 324 of each directory that has one.\<close>

definition spec_tileDataOffsets :: "Ifd list \<Rightarrow> nat list" where
  "spec_tileDataOffsets ds =
     concat (map (\<lambda>d. case getTagValue d 324 of None \<Rightarrow> [] | Some v \<Rightarrow> [unat v]) ds)"

text \<open>One warning if there are tile-data offsets and the least is below the estimate, none otherwise.\<close>

definition spec_warnings :: "Ifd list \<Rightarrow> string list" where
  "spec_warnings ds =
     (if spec_tileDataOffsets ds \<noteq> [] \<and> Min (set (spec_tileDataOffsets ds)) < spec_lastIfdEnd ds
      then [''Tile data may be interleaved with IFDs.'']
      else [])"

section \<open>Stating properties of the chain walk\<close>

text \<open>
  \<open>walk_state view hdr acc seenOffsets currentOffset\<close>: the loop of \<open>parseAllIfds\<close>
  reaches the head of the \<open>while\<close> with these values of \<open>ifds\<close>, \<open>seenOffsets\<close> and
  \<open>currentOffset\<close>. \<open>chain view hdr off ds\<close>: following the next-directory offsets from
  \<open>off\<close>, with no check other than the reads of \<open>parseIfd\<close>, gives the directories
  \<open>ds\<close> and ends at offset 0.
\<close>

inductive walk_state :: "DataView \<Rightarrow> TiffHeader \<Rightarrow> Ifd list \<Rightarrow> 64 word set \<Rightarrow> 64 word \<Rightarrow> bool"
  for view hdr where
  walk_start: "walk_state view hdr [] {} (firstIfdOffset hdr)"
| walk_step:
    "walk_state view hdr acc seenOffsets currentOffset \<Longrightarrow>
     currentOffset \<noteq> 0 \<Longrightarrow> length acc < MAX_IFDS \<Longrightarrow> currentOffset \<notin> seenOffsets \<Longrightarrow>
     parseIfd view currentOffset hdr = Inr ifd \<Longrightarrow>
     walk_state view hdr (acc @ [ifd]) (insert currentOffset seenOffsets) (nextIfdOffset ifd)"

inductive chain :: "DataView \<Rightarrow> TiffHeader \<Rightarrow> 64 word \<Rightarrow> Ifd list \<Rightarrow> bool"
  for view hdr where
  chain_end: "chain view hdr 0 []"
| chain_next:
    "off \<noteq> 0 \<Longrightarrow> parseIfd view off hdr = Inr ifd \<Longrightarrow>
     chain view hdr (nextIfdOffset ifd) ds \<Longrightarrow> chain view hdr off (ifd # ds)"

section \<open>A test file: 1000 directories in a ring\<close>

text \<open>
  A little-endian classic file: the header \<open>49 49 2A 00 08 00 00 00\<close>, then
  \<open>MAX_IFDS\<close> directories of six bytes each, directory \<open>i\<close> at offset \<open>8 + 6 i\<close>
  with no entries and the offset of directory \<open>i + 1\<close> as its next-directory offset; the
  last one points back to offset 8.
\<close>

definition ring_hdr :: TiffHeader where
  "ring_hdr = \<lparr>bigTiff = False, littleEndian = True, firstIfdOffset = 8\<rparr>"

definition ring_next :: "nat \<Rightarrow> nat" where
  "ring_next i = 8 + 6 * ((i + 1) mod MAX_IFDS)"

definition ring_dir :: "nat \<Rightarrow> 8 word list" where
  "ring_dir i = [0, 0, word_of_nat (ring_next i mod 256), word_of_nat (ring_next i div 256), 0, 0]"

definition ring_view :: DataView where
  "ring_view = [0x49, 0x49, 0x2A, 0, 8, 0, 0, 0] @ concat (map ring_dir [0..<MAX_IFDS])"

definition ring_offset :: "nat \<Rightarrow> 64 word" where
  "ring_offset i = word_of_nat (8 + 6 * i)"

definition ring_ifd :: "nat \<Rightarrow> Ifd" where
  "ring_ifd i = \<lparr>offset = ring_offset i, entries = [], nextIfdOffset = word_of_nat (ring_next i)\<rparr>"

definition ring_ifds :: "Ifd list" where
  "ring_ifds = map ring_ifd [0..<MAX_IFDS]"

definition ring_seen :: "64 word set" where
  "ring_seen = ring_offset ` {0..<MAX_IFDS}"

section \<open>Decimal rendering and number conversion\<close>

lemma digit_inj: "a < 10 \<Longrightarrow> b < 10 \<Longrightarrow> digit a = digit b \<Longrightarrow> a = b"
  unfolding digit_def by (subst (asm) nth_eq_iff_index_eq) simp_all

lemma show_nat_ne: "show_nat n \<noteq> []"
  by (subst show_nat.simps) simp

lemma show_nat_last: "last (show_nat n) = digit (n mod 10)"
  by (subst show_nat.simps) simp

lemma show_nat_butlast: "butlast (show_nat n) = (if n < 10 then [] else show_nat (n div 10))"
  by (subst show_nat.simps) simp

lemma show_nat_inj: "show_nat a = show_nat b \<Longrightarrow> a = b"
proof (induction a arbitrary: b rule: show_nat.induct)
  case (1 n)
  from "1.prems" have l: "digit (n mod 10) = digit (b mod 10)"
    by (metis show_nat_last)
  then have m: "n mod 10 = b mod 10" by (rule digit_inj[rotated 2]) simp_all
  from "1.prems" have bl: "butlast (show_nat n) = butlast (show_nat b)" by simp
  show ?case
  proof (cases "n < 10")
    case True
    with bl have "b < 10"
      by (auto simp: show_nat_butlast show_nat_ne show_nat_ne[symmetric] split: if_splits)
    with True m show ?thesis by simp
  next
    case False
    with bl have b: "\<not> b < 10" and e: "show_nat (n div 10) = show_nat (b div 10)"
      by (auto simp: show_nat_butlast show_nat_ne split: if_splits)
    from "1.IH"[OF False e] have "n div 10 = b div 10" .
    with m show ?thesis by (metis div_mult_mod_eq)
  qed
qed

lemma spec_tiledError_inj: "spec_tiledError i = spec_tiledError j \<Longrightarrow> i = j"
  by (auto simp: spec_tiledError_def dest: show_nat_inj split: if_splits)

section \<open>The validator\<close>

lemma tiledErrors_eq:
  "tiledErrors ds k errs =
     errs @ map (\<lambda>i. spec_tiledError (k + i)) (filter (\<lambda>i. \<not> isTiled (ds ! i)) [0..<length ds])"
proof (induction ds arbitrary: k errs)
  case Nil
  show ?case by simp
next
  case (Cons d ds)
  have u: "[0..<length (d # ds)] = 0 # map Suc [0..<length ds]"
    by (simp add: upt_conv_Cons map_Suc_upt del: upt_Suc)
  show ?case
    unfolding u by (simp add: Cons.IH filter_map comp_def spec_tiledError_def)
qed

lemma collect_eq:
  "collectTileOffsets ds acc =
     acc @ concat (map (\<lambda>d. case getTagValue d TileOffsets of None \<Rightarrow> [] | Some v \<Rightarrow> [toNumber (unat v)]) ds)"
  by (induction ds arbitrary: acc) (auto split: option.splits)

lemma foldl_max_eq: "foldl max a xs = Max (insert a (set xs))"
proof (induction xs arbitrary: a)
  case Nil show ?case by simp
next
  case (Cons x xs)
  have "Max (insert (max a x) (set xs)) = Max (insert a (insert x (set xs)))"
    by (metis List.finite_set Max.insert_remove Max_insert Max_singleton finite.insertI insert_not_empty max.assoc)
  then show ?case by (simp add: Cons.IH)
qed

lemma Math_max_eq: "xs \<noteq> [] \<Longrightarrow> Math_max xs = Max (set xs)"
  unfolding Math_max_def foldl_max_eq
  by (cases xs) (auto simp: max_def intro: antisym)

lemma foldl_min_eq: "foldl min a xs = Min (insert a (set xs))"
proof (induction xs arbitrary: a)
  case Nil show ?case by simp
next
  case (Cons x xs)
  have "Min (insert (min a x) (set xs)) = Min (insert a (insert x (set xs)))"
    by (metis List.finite_set Min.insert_remove Min_insert Min_singleton finite.insertI insert_not_empty min.assoc)
  then show ?case by (simp add: Cons.IH)
qed

lemma Math_min_eq: "xs \<noteq> [] \<Longrightarrow> Math_min xs = Min (set xs)"
  by (cases xs) (simp_all add: foldl_min_eq)

lemma bitlen_pos: "n \<noteq> 0 \<Longrightarrow> 0 < bitlen n"
  by (subst bitlen.simps) simp

lemma bitlen_lower: "n \<noteq> 0 \<Longrightarrow> 2 ^ (bitlen n - 1) \<le> n"
proof (induction n rule: bitlen.induct)
  case (1 n)
  show ?case
  proof (cases "n div 2 = 0")
    case True
    with "1.prems" have "n = 1" by (simp add: div_eq_0_iff)
    then show ?thesis by (simp add: bitlen.simps)
  next
    case False
    from "1.IH"[OF "1.prems" False] have ih: "2 ^ (bitlen (n div 2) - 1) \<le> n div 2" .
    from bitlen_pos[OF False] obtain k where k: "bitlen (n div 2) = Suc k"
      by (cases "bitlen (n div 2)") auto
    have "bitlen n = Suc (Suc k)" using "1.prems" k by (subst bitlen.simps) simp
    moreover have "2 * 2 ^ k \<le> n" using ih k by simp
    ultimately show ?thesis by simp
  qed
qed

lemma bitlen_upper: "n < 2 ^ bitlen n"
proof (induction n rule: bitlen.induct)
  case (1 n)
  show ?case
  proof (cases "n = 0")
    case True
    then show ?thesis by simp
  next
    case False
    from "1.IH"[OF False] have "n div 2 < 2 ^ bitlen (n div 2)" .
    then have "n < 2 * 2 ^ bitlen (n div 2)" by simp
    moreover have "bitlen n = Suc (bitlen (n div 2))" using False by (subst bitlen.simps) simp
    ultimately show ?thesis by simp
  qed
qed

lemma toNumber_small: "n < 2 ^ 53 \<Longrightarrow> toNumber n = n"
  by (simp add: toNumber_def)

lemma toNumber_large:
  assumes "2 ^ 53 \<le> n"
  shows "2 ^ 53 \<le> toNumber n"
proof -
  define e where "e = bitlen n - 53"
  define q where "q = n div 2 ^ e"
  have n0: "n \<noteq> 0" using assms by auto
  have "(2::nat) ^ 53 < 2 ^ bitlen n" using assms bitlen_upper[of n] by (rule le_less_trans)
  then have b: "53 < bitlen n" using power_less_imp_less_exp[of 2 53 "bitlen n"] by simp
  then have e1: "1 \<le> e" and be: "bitlen n - 1 = 52 + e" by (simp_all add: e_def)
  from bitlen_lower[OF n0] be have "2 ^ 52 * 2 ^ e \<le> n" by (simp add: power_add)
  then have q52: "2 ^ 52 \<le> q" unfolding q_def
    by (metis div_le_mono nonzero_mult_div_cancel_right power_not_zero zero_neq_numeral)
  have "(2::nat) ^ 53 = 2 ^ 52 * 2 ^ 1" by simp
  also have "\<dots> \<le> q * 2 ^ e" using q52 e1
    by (intro mult_le_mono power_increasing) simp_all
  finally have low: "2 ^ 53 \<le> q * 2 ^ e" .
  have "q * 2 ^ e \<le> toNumber n"
    using assms by (simp add: toNumber_def Let_def e_def[symmetric] q_def[symmetric])
  with low show ?thesis by (rule le_trans)
qed

lemma toNumber_less_iff: "E \<le> 2 ^ 53 \<Longrightarrow> toNumber t < E \<longleftrightarrow> t < E"
proof (cases "t < 2 ^ 53")
  case True
  then show ?thesis by (simp add: toNumber_small)
next
  case False
  assume "E \<le> 2 ^ 53"
  moreover from False have "2 ^ 53 \<le> toNumber t" using toNumber_large[of t] by simp
  ultimately show ?thesis using False by simp
qed

lemma collect_spec:
  "collectTileOffsets ds [] = map toNumber (spec_tileDataOffsets ds)"
  unfolding collect_eq spec_tileDataOffsets_def TileOffsets_def
  by (induction ds) (auto split: option.splits)

lemma offsets_exact:
  assumes "ds \<noteq> []" and "spec_lastIfdEnd ds < 2 ^ 53"
  shows "map (\<lambda>ifd. toNumber (unat (offset ifd))) ds = map (\<lambda>d. unat (offset d)) ds"
proof (rule map_cong[OF refl])
  fix d assume "d \<in> set ds"
  then have "unat (offset d) \<le> Max (set (map (\<lambda>d. unat (offset d)) ds))"
    by (intro Max_ge) auto
  with assms(2) have "unat (offset d) < 2 ^ 53" unfolding spec_lastIfdEnd_def by linarith
  then show "toNumber (unat (offset d)) = unat (offset d)" by (rule toNumber_small)
qed

lemma estimate_eq: "estimateIfdSize d = 6 + 12 * length (entries d)"
  by (simp add: estimateIfdSize_def)

lemma lastIfdEnd_exact:
  assumes "ds \<noteq> []" and "spec_lastIfdEnd ds < 2 ^ 53"
  shows "toNumber (Math_max (map (\<lambda>ifd. toNumber (unat (offset ifd))) ds) + estimateIfdSize (last ds))
           = spec_lastIfdEnd ds"
proof -
  have "Math_max (map (\<lambda>d. unat (offset d)) ds) + estimateIfdSize (last ds) = spec_lastIfdEnd ds"
    using assms(1) by (simp add: Math_max_eq estimate_eq spec_lastIfdEnd_def)
  then show ?thesis
    using assms by (simp add: offsets_exact toNumber_small)
qed

lemma min_toNumber_less:
  assumes "ts \<noteq> []" and "E \<le> 2 ^ 53"
  shows "Math_min (map toNumber ts) < E \<longleftrightarrow> Min (set ts) < E"
proof -
  have "Math_min (map toNumber ts) = Min (toNumber ` set ts)"
    using assms(1) by (simp add: Math_min_eq)
  then show ?thesis
    using assms by (simp add: Min_less_iff toNumber_less_iff)
qed

lemma validate_warnings_spec:
  assumes "ifds s \<noteq> []" and "spec_lastIfdEnd (ifds s) < 2 ^ 53"
  shows "warnings (validate s) = spec_warnings (ifds s)"
proof -
  have E: "spec_lastIfdEnd (ifds s) \<le> 2 ^ 53" using assms(2) by simp
  show ?thesis
  proof (cases "spec_tileDataOffsets (ifds s) = []")
    case True
    then show ?thesis using assms(1)
      by (simp add: validate_def Let_def collect_spec spec_warnings_def)
  next
    case False
    then show ?thesis using assms(1)
      by (simp add: validate_def Let_def collect_spec spec_warnings_def
            lastIfdEnd_exact[OF assms] min_toNumber_less[OF False E])
  qed
qed

lemma validate_valid_iff:
  "ifds s \<noteq> [] \<Longrightarrow> valid (validate s) \<longleftrightarrow> (\<forall>d \<in> set (ifds s). isTiled d)"
  by (auto simp: validate_def Let_def tiledErrors_eq filter_empty_conv all_set_conv_all_nth)

lemma validate_errors:
  "ifds s \<noteq> [] \<Longrightarrow> errors (validate s) =
     map spec_tiledError (filter (\<lambda>i. \<not> isTiled (ifds s ! i)) [0..<length (ifds s)])"
  by (simp add: validate_def Let_def tiledErrors_eq)

lemma getTagValue_None: "getTagValue ifd t = None \<longleftrightarrow> (\<forall>e \<in> set (entries ifd). tag e \<noteq> t)"
proof -
  have "getTagValue ifd t = None \<longleftrightarrow> find (\<lambda>e. tag e = t) (entries ifd) = None"
    by (simp add: getTagValue_def split: option.splits)
  then show ?thesis by (auto simp: find_None_iff)
qed

lemma getTagValue_Some:
  "getTagValue ifd t = Some v \<longleftrightarrow>
     (\<exists>i<length (entries ifd). tag (entries ifd ! i) = t \<and>
        (\<forall>j<i. tag (entries ifd ! j) \<noteq> t) \<and> val (entries ifd ! i) = v)"
proof -
  have "getTagValue ifd t = Some v \<longleftrightarrow>
          (\<exists>e. find (\<lambda>e. tag e = t) (entries ifd) = Some e \<and> val e = v)"
    by (auto simp: getTagValue_def split: option.splits)
  also have "\<dots> \<longleftrightarrow> (\<exists>i<length (entries ifd). tag (entries ifd ! i) = t \<and>
        (\<forall>j<i. tag (entries ifd ! j) \<noteq> t) \<and> val (entries ifd ! i) = v)"
    unfolding find_Some_iff by blast
  finally show ?thesis .
qed

lemma isTiled_iff:
  "isTiled ifd \<longleftrightarrow> (\<exists>e \<in> set (entries ifd). tag e = 322) \<and> (\<exists>e \<in> set (entries ifd). tag e = 323)
      \<and> (\<exists>e \<in> set (entries ifd). tag e = 324)"
  by (auto simp: isTiled_def getTagValue_None TileWidth_def TileLength_def TileOffsets_def)

lemma isTiled_drop_325:
  "isTiled (ifd\<lparr>entries := filter (\<lambda>e. tag e \<noteq> 325) (entries ifd)\<rparr>) = isTiled ifd"
  by (auto simp: isTiled_iff)

text \<open>
  C9. A structure with no directories: the result is invalid, carries the single error
  \<open>No IFDs found in file\<close> and no warning; neither the tiling check nor the
  interleaving check contributes anything.
\<close>

theorem validate_no_ifds:
  "ifds structure = [] \<Longrightarrow>
     validate structure =
       \<lparr>valid = False, errors = [''No IFDs found in file''], warnings = []\<rparr>"
  by (simp add: validate_def)

theorem validate_no_ifds_witness:
  "validate \<lparr>header = \<lparr>bigTiff = False, littleEndian = True, firstIfdOffset = 8\<rparr>, ifds = []\<rparr> =
     \<lparr>valid = False, errors = [''No IFDs found in file''], warnings = []\<rparr>"
  using validate_no_ifds
    [of "\<lparr>header = \<lparr>bigTiff = False, littleEndian = True, firstIfdOffset = 8\<rparr>, ifds = []\<rparr>"]
  by simp

text \<open>
  C1. With at least one directory, the errors of \<open>validate\<close> are, in file order, the
  messages of exactly the directories that are not tiled: \<open>Main image is not tiled\<close> for
  index 0, \<open>Overview <index> is not tiled\<close> for an index above 0. Every directory is
  looked at, nothing else is reported, and \<open>valid\<close> holds if and only if there is no
  error. Two directories of which only the second is not tiled give the single error
  \<open>Overview 1 is not tiled\<close>.
\<close>

theorem validate_tiling_errors:
  "ifds s \<noteq> [] \<Longrightarrow>
     errors (validate s) =
       map spec_tiledError (filter (\<lambda>i. \<not> isTiled (ifds s ! i)) [0..<length (ifds s)])
     \<and> (\<forall>i<length (ifds s).
           spec_tiledError i \<in> set (errors (validate s)) \<longleftrightarrow> \<not> isTiled (ifds s ! i))
     \<and> (valid (validate s) \<longleftrightarrow> errors (validate s) = [])
     \<and> (\<forall>d0 d1. ifds s = [d0, d1] \<and> isTiled d0 \<and> \<not> isTiled d1 \<longrightarrow>
           errors (validate s) = [''Overview 1 is not tiled''])"
proof (intro conjI allI impI)
  assume ne: "ifds s \<noteq> []"
  show e: "errors (validate s) =
       map spec_tiledError (filter (\<lambda>i. \<not> isTiled (ifds s ! i)) [0..<length (ifds s)])"
    using ne by (rule validate_errors)
  show "valid (validate s) \<longleftrightarrow> errors (validate s) = []"
    using ne by (simp add: validate_def Let_def)
  {
    fix i assume "i < length (ifds s)"
    then show "spec_tiledError i \<in> set (errors (validate s)) \<longleftrightarrow> \<not> isTiled (ifds s ! i)"
      unfolding e by (auto dest: spec_tiledError_inj)
  }
  {
    fix d0 d1 assume "ifds s = [d0, d1] \<and> isTiled d0 \<and> \<not> isTiled d1"
    then show "errors (validate s) = [''Overview 1 is not tiled'']"
      by (simp add: validate_def Let_def show_nat.simps digit_def)
  }
qed

theorem validate_tiling_errors_witness:
  "errors (validate
     \<lparr>header = \<lparr>bigTiff = False, littleEndian = True, firstIfdOffset = 8\<rparr>,
      ifds = [\<lparr>offset = 8,
               entries = [\<lparr>tag = 322, type = 4, count = 1, val = 512\<rparr>,
                          \<lparr>tag = 323, type = 4, count = 1, val = 512\<rparr>,
                          \<lparr>tag = 324, type = 4, count = 1, val = 2000\<rparr>],
               nextIfdOffset = 0\<rparr>,
              \<lparr>offset = 200,
               entries = [\<lparr>tag = 273, type = 4, count = 1, val = 3000\<rparr>],
               nextIfdOffset = 0\<rparr>]\<rparr>) = [''Overview 1 is not tiled'']"
proof -
  let ?s = "\<lparr>header = \<lparr>bigTiff = False, littleEndian = True, firstIfdOffset = 8\<rparr>,
      ifds = [\<lparr>offset = 8,
               entries = [\<lparr>tag = 322, type = 4, count = 1, val = 512\<rparr>,
                          \<lparr>tag = 323, type = 4, count = 1, val = 512\<rparr>,
                          \<lparr>tag = 324, type = 4, count = 1, val = 2000\<rparr>],
               nextIfdOffset = 0\<rparr>,
              \<lparr>offset = 200,
               entries = [\<lparr>tag = 273, type = 4, count = 1, val = 3000\<rparr>],
               nextIfdOffset = 0\<rparr>]\<rparr>"
  have ne: "ifds ?s \<noteq> []" by simp
  have "errors (validate ?s) =
          map spec_tiledError (filter (\<lambda>i. \<not> isTiled (ifds ?s ! i)) [0..<length (ifds ?s)])"
    using validate_tiling_errors[OF ne] by (rule conjunct1)
  also have "\<dots> = [''Overview 1 is not tiled'']"
    by (simp add: upt_rec isTiled_def getTagValue_def TileWidth_def TileLength_def
          TileOffsets_def spec_tiledError_def show_nat.simps digit_def)
  finally show ?thesis .
qed

text \<open>
  C2. \<open>isTiled\<close> holds if and only if the directory has an entry with tag 322, one with
  tag 323 and one with tag 324; entries with tag 325 play no part. \<open>getTagValue\<close> finds
  nothing exactly when no entry carries the tag, and otherwise gives the value of the first
  entry, in stored order, that carries it.
\<close>

theorem isTiled_three_tags:
  "(isTiled ifd \<longleftrightarrow>
      (\<exists>e \<in> set (entries ifd). tag e = 322) \<and> (\<exists>e \<in> set (entries ifd). tag e = 323)
      \<and> (\<exists>e \<in> set (entries ifd). tag e = 324))
   \<and> isTiled (ifd\<lparr>entries := filter (\<lambda>e. tag e \<noteq> 325) (entries ifd)\<rparr>) = isTiled ifd
   \<and> (getTagValue ifd t = None \<longleftrightarrow> (\<forall>e \<in> set (entries ifd). tag e \<noteq> t))
   \<and> (getTagValue ifd t = Some v \<longleftrightarrow>
        (\<exists>i<length (entries ifd). tag (entries ifd ! i) = t
           \<and> (\<forall>j<i. tag (entries ifd ! j) \<noteq> t) \<and> val (entries ifd ! i) = v))"
  using isTiled_iff[of ifd] isTiled_drop_325[of ifd] getTagValue_None[of ifd t]
    getTagValue_Some[of ifd t v]
  by blast

theorem isTiled_three_tags_witness:
  "isTiled \<lparr>offset = 8,
            entries = [\<lparr>tag = 322, type = 4, count = 1, val = 512\<rparr>,
                       \<lparr>tag = 322, type = 4, count = 1, val = 256\<rparr>,
                       \<lparr>tag = 323, type = 4, count = 1, val = 512\<rparr>,
                       \<lparr>tag = 324, type = 4, count = 1, val = 2000\<rparr>],
            nextIfdOffset = 0\<rparr>
   \<and> getTagValue \<lparr>offset = 8,
            entries = [\<lparr>tag = 322, type = 4, count = 1, val = 512\<rparr>,
                       \<lparr>tag = 322, type = 4, count = 1, val = 256\<rparr>,
                       \<lparr>tag = 323, type = 4, count = 1, val = 512\<rparr>,
                       \<lparr>tag = 324, type = 4, count = 1, val = 2000\<rparr>],
            nextIfdOffset = 0\<rparr> 322 = Some 512"
  using isTiled_three_tags
    [of "\<lparr>offset = 8,
            entries = [\<lparr>tag = 322, type = 4, count = 1, val = 512\<rparr>,
                       \<lparr>tag = 322, type = 4, count = 1, val = 256\<rparr>,
                       \<lparr>tag = 323, type = 4, count = 1, val = 512\<rparr>,
                       \<lparr>tag = 324, type = 4, count = 1, val = 2000\<rparr>],
            nextIfdOffset = 0\<rparr>" 322 512]
  by (simp add: getTagValue_def)

section \<open>Reading bytes\<close>

lemma byte_lt: "unat (b :: 8 word) < 256"
  using unsigned_less[of b] by simp

lemma getUint_Inl: "getUint v p n le = Inl e \<longleftrightarrow> e = RangeError \<and> length v < p + n"
  by (auto simp: getUint_def Let_def)

lemma getUint16_Inl: "getUint16 v p le = Inl e \<longleftrightarrow> e = RangeError \<and> length v < p + 2"
  by (auto simp: getUint16_def getUint_def Let_def)

lemma getUint32_Inl: "getUint32 v p le = Inl e \<longleftrightarrow> e = RangeError \<and> length v < p + 4"
  by (auto simp: getUint32_def getUint_def Let_def)

lemma getBigUint64_Inl: "getBigUint64 v p le = Inl e \<longleftrightarrow> e = RangeError \<and> length v < p + 8"
  by (auto simp: getBigUint64_def getUint_def Let_def)

lemma take2: "p + 2 \<le> length v \<Longrightarrow> take 2 (drop p v) = [v ! p, v ! (p + 1)]"
  by (auto intro!: nth_equalityI simp: nth_Cons' less_Suc_eq eval_nat_numeral)

lemma take4:
  "p + 4 \<le> length v \<Longrightarrow> take 4 (drop p v) = [v ! p, v ! (p + 1), v ! (p + 2), v ! (p + 3)]"
  by (auto intro!: nth_equalityI simp: nth_Cons' less_Suc_eq eval_nat_numeral)

lemma take8:
  "p + 8 \<le> length v \<Longrightarrow>
     take 8 (drop p v) = [v ! p, v ! (p + 1), v ! (p + 2), v ! (p + 3),
                         v ! (p + 4), v ! (p + 5), v ! (p + 6), v ! (p + 7)]"
  by (auto intro!: nth_equalityI simp: nth_Cons' less_Suc_eq eval_nat_numeral)

lemma getUint_2:
  "p + 2 \<le> length v \<Longrightarrow>
     getUint v p 2 le = Inr (if le then unat (v ! p) + 256 * unat (v ! (p + 1))
                             else 256 * unat (v ! p) + unat (v ! (p + 1)))"
  by (simp add: getUint_def take2 be_nat_def)

lemma getUint_4:
  "p + 4 \<le> length v \<Longrightarrow>
     getUint v p 4 le = Inr
       (if le then unat (v ! p) + 256 * unat (v ! (p + 1)) + 65536 * unat (v ! (p + 2))
                   + 16777216 * unat (v ! (p + 3))
        else 16777216 * unat (v ! p) + 65536 * unat (v ! (p + 1)) + 256 * unat (v ! (p + 2))
                   + unat (v ! (p + 3)))"
  by (simp add: getUint_def take4 be_nat_def)

lemma getUint_8:
  "p + 8 \<le> length v \<Longrightarrow>
     getUint v p 8 le = Inr
       (if le then unat (v ! p) + 256 * unat (v ! (p + 1)) + 256 ^ 2 * unat (v ! (p + 2))
                   + 256 ^ 3 * unat (v ! (p + 3)) + 256 ^ 4 * unat (v ! (p + 4))
                   + 256 ^ 5 * unat (v ! (p + 5)) + 256 ^ 6 * unat (v ! (p + 6))
                   + 256 ^ 7 * unat (v ! (p + 7))
        else 256 ^ 7 * unat (v ! p) + 256 ^ 6 * unat (v ! (p + 1)) + 256 ^ 5 * unat (v ! (p + 2))
                   + 256 ^ 4 * unat (v ! (p + 3)) + 256 ^ 3 * unat (v ! (p + 4))
                   + 256 ^ 2 * unat (v ! (p + 5)) + 256 * unat (v ! (p + 6))
                   + unat (v ! (p + 7)))"
  by (simp add: getUint_def take8 be_nat_def)

lemma marker_LE:
  "(word_of_nat (256 * unat (a :: 8 word) + unat (b :: 8 word)) :: 16 word) = 0x4949
     \<longleftrightarrow> a = 0x49 \<and> b = 0x49"
proof -
  have "256 * unat a + unat b < 65536" using byte_lt[of a] byte_lt[of b] by simp
  then have "unat (word_of_nat (256 * unat a + unat b) :: 16 word) = 256 * unat a + unat b"
    by (simp only: unat_of_nat) simp
  then have "(word_of_nat (256 * unat a + unat b) :: 16 word) = 0x4949
               \<longleftrightarrow> 256 * unat a + unat b = 18761"
    by (simp only: word_unat_eq_iff) simp
  also have "\<dots> \<longleftrightarrow> unat a = 73 \<and> unat b = 73"
    using byte_lt[of a] byte_lt[of b] by presburger
  also have "\<dots> \<longleftrightarrow> a = 0x49 \<and> b = 0x49"
    by (simp add: word_unat_eq_iff)
  finally show ?thesis .
qed

lemma marker_BE:
  "(word_of_nat (256 * unat (a :: 8 word) + unat (b :: 8 word)) :: 16 word) = 0x4d4d
     \<longleftrightarrow> a = 0x4d \<and> b = 0x4d"
proof -
  have "256 * unat a + unat b < 65536" using byte_lt[of a] byte_lt[of b] by simp
  then have "unat (word_of_nat (256 * unat a + unat b) :: 16 word) = 256 * unat a + unat b"
    by (simp only: unat_of_nat) simp
  then have "(word_of_nat (256 * unat a + unat b) :: 16 word) = 0x4d4d
               \<longleftrightarrow> 256 * unat a + unat b = 19789"
    by (simp only: word_unat_eq_iff) simp
  also have "\<dots> \<longleftrightarrow> unat a = 77 \<and> unat b = 77"
    using byte_lt[of a] byte_lt[of b] by presburger
  also have "\<dots> \<longleftrightarrow> a = 0x4d \<and> b = 0x4d"
    by (simp add: word_unat_eq_iff)
  finally show ?thesis .
qed

text \<open>The first read of parseHeader.\<close>

lemma byteOrder_read:
  "2 \<le> length v \<Longrightarrow>
     getUint16 v 0 False = Inr (word_of_nat (256 * unat (v ! 0) + unat (v ! 1)))"
  using getUint_2[of 0 v False] by (simp only: getUint16_def) simp

lemma magic_unat:
  assumes "4 \<le> length v"
  shows "\<exists>w. getUint16 v 2 le = Inr w \<and>
           unat w = (if le then unat (v ! 2) + 256 * unat (v ! 3)
                     else 256 * unat (v ! 2) + unat (v ! 3))"
proof -
  let ?n = "if le then unat (v ! 2) + 256 * unat (v ! 3) else 256 * unat (v ! 2) + unat (v ! 3)"
  have g: "getUint v 2 2 le = Inr ?n" using getUint_2[of 2 v le] assms by simp
  have "?n < 65536" using byte_lt[of "v ! 2"] byte_lt[of "v ! 3"] by simp
  then have "unat (word_of_nat ?n :: 16 word) = ?n" by (simp only: unat_of_nat) simp
  moreover have "getUint16 v 2 le = Inr (word_of_nat ?n)"
    by (simp only: getUint16_def g sum.case)
  ultimately show ?thesis by blast
qed

lemma parseHeader_bad_marker:
  assumes "2 \<le> length v"
    and "\<not> (v ! 0 = 0x49 \<and> v ! 1 = 0x49)" and "\<not> (v ! 0 = 0x4d \<and> v ! 1 = 0x4d)"
  shows "parseHeader v = Inl (Error ''Not a valid TIFF file: bad byte order marker'')"
  using assms(2,3)
  by (simp only: parseHeader_def byteOrder_read[OF assms(1)] sum.case marker_LE marker_BE)
     simp

lemma parseHeader_after_marker:
  assumes "4 \<le> length v" and "v ! 0 = mk" and "v ! 1 = mk"
    and "mk = (if le then 0x49 else 0x4d)"
  shows "parseHeader v =
     (case getUint16 v 2 le of
               Inl e \<Rightarrow> Inl e
             | Inr magic \<Rightarrow>
                 if magic \<noteq> 42 \<and> magic \<noteq> 43
                 then Inl (Error (''Not a valid TIFF file: bad magic number '' @ show_nat (unat magic)))
                 else
                   let big = (magic = 43) in
                   (case (if big then getBigUint64 v 8 le
                          else (case getUint32 v 4 le of
                                  Inl e \<Rightarrow> Inl e
                                | Inr n \<Rightarrow> Inr (ucast n))) of
                      Inl e \<Rightarrow> Inl e
                    | Inr firstOff \<Rightarrow>
                        Inr \<lparr>bigTiff = big, littleEndian = le, firstIfdOffset = firstOff\<rparr>))"
proof -
  have 2: "2 \<le> length v" using assms(1) by simp
  have m: "(word_of_nat (256 * unat (v ! 0) + unat (v ! 1)) :: 16 word) =
             (if le then 0x4949 else 0x4d4d)"
    using assms(2,3,4) by (cases le) (simp_all only: marker_LE marker_BE if_True if_False)
  show ?thesis
    unfolding parseHeader_def byteOrder_read[OF 2] m
    by (cases le) (simp_all add: Let_def split: sum.splits)
qed

lemma parseHeader_bad_magic:
  assumes "4 \<le> length v" and "v ! 0 = mk" and "v ! 1 = mk"
    and "mk = (if le then 0x49 else 0x4d)"
    and "m = (if le then unat (v ! 2) + 256 * unat (v ! 3) else 256 * unat (v ! 2) + unat (v ! 3))"
    and "m \<noteq> 42" and "m \<noteq> 43"
  shows "parseHeader v = Inl (Error (''Not a valid TIFF file: bad magic number '' @ show_nat m))"
proof -
  from magic_unat[OF assms(1), of le] assms(5) obtain w
    where w: "getUint16 v 2 le = Inr w" and u: "unat w = m" by auto
  have "w \<noteq> 42" "w \<noteq> 43" using u assms(6,7) by (auto simp: word_unat_eq_iff)
  then show ?thesis
    unfolding parseHeader_after_marker[OF assms(1-4)] w using u by simp
qed

lemma ucast_of_nat_32_64:
  "n < 2 ^ 32 \<Longrightarrow> (ucast (word_of_nat n :: 32 word) :: 64 word) = word_of_nat n"
  by (simp add: word_unat_eq_iff unat_of_nat unsigned_ucast_eq take_bit_nat_eq_self)

lemma parseHeader_classic:
  assumes len: "8 \<le> length v" and mk: "v ! 0 = mk" "v ! 1 = mk" "mk = (if le then 0x49 else 0x4d)"
    and magic: "(if le then unat (v ! 2) + 256 * unat (v ! 3)
                 else 256 * unat (v ! 2) + unat (v ! 3)) = 42"
  shows "parseHeader v =
     Inr \<lparr>bigTiff = False, littleEndian = le,
          firstIfdOffset = word_of_nat
            (if le then unat (v ! 4) + 256 * unat (v ! 5) + 65536 * unat (v ! 6)
                        + 16777216 * unat (v ! 7)
             else 16777216 * unat (v ! 4) + 65536 * unat (v ! 5) + 256 * unat (v ! 6)
                        + unat (v ! 7))\<rparr>"
proof -
  let ?n = "if le then unat (v ! 4) + 256 * unat (v ! 5) + 65536 * unat (v ! 6)
                        + 16777216 * unat (v ! 7)
             else 16777216 * unat (v ! 4) + 65536 * unat (v ! 5) + 256 * unat (v ! 6)
                        + unat (v ! 7)"
  have 4: "4 \<le> length v" using len by simp
  from magic_unat[OF 4, of le] magic obtain w
    where w: "getUint16 v 2 le = Inr w" and u: "unat w = 42" by auto
  have w42: "w = 42" using u by (simp add: word_unat_eq_iff)
  have g: "getUint v 4 4 le = Inr ?n" using getUint_4[of 4 v le] len by simp
  have n: "?n < 2 ^ 32"
    using byte_lt[of "v ! 4"] byte_lt[of "v ! 5"] byte_lt[of "v ! 6"] byte_lt[of "v ! 7"] by simp
  have r: "getUint32 v 4 le = Inr (word_of_nat ?n)"
    by (simp only: getUint32_def g sum.case)
  show ?thesis
    unfolding parseHeader_after_marker[OF 4 mk] w r w42
    by (simp only: ucast_of_nat_32_64[OF n] sum.case Let_def) simp
qed

lemma parseHeader_wide:
  assumes len: "16 \<le> length v" and mk: "v ! 0 = mk" "v ! 1 = mk" "mk = (if le then 0x49 else 0x4d)"
    and magic: "(if le then unat (v ! 2) + 256 * unat (v ! 3)
                 else 256 * unat (v ! 2) + unat (v ! 3)) = 43"
  shows "parseHeader v =
     Inr \<lparr>bigTiff = True, littleEndian = le,
          firstIfdOffset = word_of_nat
            (if le then unat (v ! 8) + 256 * unat (v ! 9) + 256 ^ 2 * unat (v ! 10)
                        + 256 ^ 3 * unat (v ! 11) + 256 ^ 4 * unat (v ! 12)
                        + 256 ^ 5 * unat (v ! 13) + 256 ^ 6 * unat (v ! 14)
                        + 256 ^ 7 * unat (v ! 15)
             else 256 ^ 7 * unat (v ! 8) + 256 ^ 6 * unat (v ! 9) + 256 ^ 5 * unat (v ! 10)
                        + 256 ^ 4 * unat (v ! 11) + 256 ^ 3 * unat (v ! 12)
                        + 256 ^ 2 * unat (v ! 13) + 256 * unat (v ! 14)
                        + unat (v ! 15))\<rparr>"
proof -
  let ?n = "if le then unat (v ! 8) + 256 * unat (v ! 9) + 256 ^ 2 * unat (v ! 10)
                        + 256 ^ 3 * unat (v ! 11) + 256 ^ 4 * unat (v ! 12)
                        + 256 ^ 5 * unat (v ! 13) + 256 ^ 6 * unat (v ! 14)
                        + 256 ^ 7 * unat (v ! 15)
             else 256 ^ 7 * unat (v ! 8) + 256 ^ 6 * unat (v ! 9) + 256 ^ 5 * unat (v ! 10)
                        + 256 ^ 4 * unat (v ! 11) + 256 ^ 3 * unat (v ! 12)
                        + 256 ^ 2 * unat (v ! 13) + 256 * unat (v ! 14)
                        + unat (v ! 15)"
  have 4: "4 \<le> length v" using len by simp
  from magic_unat[OF 4, of le] magic obtain w
    where w: "getUint16 v 2 le = Inr w" and u: "unat w = 43" by auto
  have w43: "w = 43" using u by (simp add: word_unat_eq_iff)
  have g: "getUint v 8 8 le = Inr ?n" using getUint_8[of 8 v le] len by simp
  have r: "getBigUint64 v 8 le = Inr (word_of_nat ?n)"
    by (simp only: getBigUint64_def g sum.case)
  show ?thesis
    unfolding parseHeader_after_marker[OF 4 mk] w r w43
    by (simp only: sum.case Let_def) simp
qed

lemma parseTiff_header_error: "parseHeader v = Inl e \<Longrightarrow> parseTiff v = Inl e"
  by (simp add: parseTiff_def)

lemma parseAllIfds_zero: "firstIfdOffset h = 0 \<Longrightarrow> parseAllIfds v h = Inr []"
  by (simp add: parseAllIfds_def parseAllIfds_loop.simps)

section \<open>The directory reader\<close>

lemma getUint16_ok: "p + 2 \<le> length v \<Longrightarrow> \<exists>x. getUint16 v p le = Inr x"
  by (simp add: getUint16_def getUint_def Let_def)

lemma getUint32_ok: "p + 4 \<le> length v \<Longrightarrow> \<exists>x. getUint32 v p le = Inr x"
  by (simp add: getUint32_def getUint_def Let_def)

lemma getBigUint64_ok: "p + 8 \<le> length v \<Longrightarrow> \<exists>x. getBigUint64 v p le = Inr x"
  by (simp add: getBigUint64_def getUint_def Let_def)

lemma parseIfdEntry_ok:
  assumes "p + (if bigTiff h then 20 else 12) \<le> length v"
  shows "\<exists>en. parseIfdEntry v p h = Inr en"
proof (cases "bigTiff h")
  case True
  with assms have l: "p + 20 \<le> length v" by simp
  from l obtain t where t: "getUint16 v p (littleEndian h) = Inr t"
    using getUint16_ok[of p v] by fastforce
  from l obtain ty where ty: "getUint16 v (p + 2) (littleEndian h) = Inr ty"
    using getUint16_ok[of "p + 2" v] by fastforce
  from l obtain c where c: "getBigUint64 v (p + 4) (littleEndian h) = Inr c"
    using getBigUint64_ok[of "p + 4" v] by fastforce
  from l obtain x where x: "getBigUint64 v (p + 12) (littleEndian h) = Inr x"
    using getBigUint64_ok[of "p + 12" v] by fastforce
  show ?thesis unfolding parseIfdEntry_def Let_def t ty c x using True by simp
next
  case False
  with assms have l: "p + 12 \<le> length v" by simp
  from l obtain t where t: "getUint16 v p (littleEndian h) = Inr t"
    using getUint16_ok[of p v] by fastforce
  from l obtain ty where ty: "getUint16 v (p + 2) (littleEndian h) = Inr ty"
    using getUint16_ok[of "p + 2" v] by fastforce
  from l obtain c where c: "getUint32 v (p + 4) (littleEndian h) = Inr c"
    using getUint32_ok[of "p + 4" v] by fastforce
  from l obtain x where x: "getUint32 v (p + 8) (littleEndian h) = Inr x"
    using getUint32_ok[of "p + 8" v] by fastforce
  show ?thesis unfolding parseIfdEntry_def Let_def t ty c x using False by simp
qed

lemma parseIfdEntry_Inl:
  "parseIfdEntry v p h = Inl e \<Longrightarrow> e = RangeError \<and> length v < p + (if bigTiff h then 20 else 12)"
  by (auto simp: parseIfdEntry_def Let_def getUint16_Inl getUint32_Inl getBigUint64_Inl
           split: sum.splits if_splits)

lemma parseIfdEntry_fail:
  assumes "length v < p + (if bigTiff h then 20 else 12)"
  shows "parseIfdEntry v p h = Inl RangeError"
proof (cases "parseIfdEntry v p h")
  case (Inl e)
  then show ?thesis using parseIfdEntry_Inl[OF Inl] by simp
next
  case (Inr en)
  have False using Inr assms
    by (auto simp: parseIfdEntry_def Let_def split: sum.splits if_splits
             dest!: sym[of "Inr _"] simp: getUint_def getUint32_def getBigUint64_def)
  then show ?thesis ..
qed

lemma parseIfd_entries_ok:
  "pos + (n - i) * (if bigTiff h then 20 else 12) \<le> length v \<Longrightarrow>
     \<exists>ents'. parseIfd_entries v h n i pos ents =
               Inr (ents', pos + (n - i) * (if bigTiff h then 20 else 12))
             \<and> length ents' = length ents + (n - i)"
proof (induction v h n i pos ents rule: parseIfd_entries.induct)
  case (1 view hdr entryCount i pos ents)
  let ?es = "if bigTiff hdr then 20 else 12 :: nat"
  show ?case
  proof (cases "i < entryCount")
    case False
    then show ?thesis by (subst parseIfd_entries.simps) simp
  next
    case True
    then have d: "entryCount - i = Suc (entryCount - (i + 1))" by simp
    have le1: "pos + ?es \<le> length view" and
         le2: "(pos + ?es) + (entryCount - (i + 1)) * ?es \<le> length view"
      using "1.prems" unfolding d by simp_all
    from parseIfdEntry_ok[OF le1] obtain en where en: "parseIfdEntry view pos hdr = Inr en" ..
    from "1.IH"[OF True en le2] obtain ents' where
      r: "parseIfd_entries view hdr entryCount (i + 1) (pos + ?es) (ents @ [en]) =
            Inr (ents', (pos + ?es) + (entryCount - (i + 1)) * ?es)"
      and l: "length ents' = length (ents @ [en]) + (entryCount - (i + 1))" by blast
    have "parseIfd_entries view hdr entryCount i pos ents =
            Inr (ents', pos + (entryCount - i) * ?es)"
      using True r unfolding d by (subst parseIfd_entries.simps) (simp add: en add.assoc)
    moreover have "length ents' = length ents + (entryCount - i)" using l d by simp
    ultimately show ?thesis by blast
  qed
qed

lemma parseIfd_entries_Inl:
  "parseIfd_entries v h n i pos ents = Inl e \<Longrightarrow>
     e = RangeError \<and> length v < pos + (n - i) * (if bigTiff h then 20 else 12)"
proof (induction v h n i pos ents rule: parseIfd_entries.induct)
  case (1 view hdr entryCount i pos ents)
  let ?es = "if bigTiff hdr then 20 else 12 :: nat"
  from "1.prems" have lt: "i < entryCount"
    by (subst (asm) parseIfd_entries.simps) (simp split: if_splits)
  then have d: "entryCount - i = Suc (entryCount - (i + 1))" by simp
  show ?case
  proof (cases "parseIfdEntry view pos hdr")
    case (Inl e')
    then have "e = e'" using "1.prems" lt by (subst (asm) parseIfd_entries.simps) simp
    with parseIfdEntry_Inl[OF Inl] show ?thesis unfolding d by simp
  next
    case (Inr en)
    then have "parseIfd_entries view hdr entryCount (i + 1) (pos + ?es) (ents @ [en]) = Inl e"
      using "1.prems" lt by (subst (asm) parseIfd_entries.simps) simp
    from "1.IH"[OF lt Inr this] show ?thesis unfolding d by (simp add: add.assoc)
  qed
qed

lemma parseIfd_entries_fail:
  "pos \<le> length v \<Longrightarrow> length v < pos + (n - i) * (if bigTiff h then 20 else 12) \<Longrightarrow>
     parseIfd_entries v h n i pos ents = Inl RangeError"
proof (induction v h n i pos ents rule: parseIfd_entries.induct)
  case (1 view hdr entryCount i pos ents)
  let ?es = "if bigTiff hdr then 20 else 12 :: nat"
  from "1.prems" have lt: "i < entryCount" by (cases "i < entryCount") simp_all
  then have d: "entryCount - i = Suc (entryCount - (i + 1))" by simp
  show ?case
  proof (cases "length view < pos + ?es")
    case True
    from parseIfdEntry_fail[OF True] show ?thesis
      using lt by (subst parseIfd_entries.simps) simp
  next
    case False
    then have le1: "pos + ?es \<le> length view" by simp
    from parseIfdEntry_ok[OF le1] obtain en where en: "parseIfdEntry view pos hdr = Inr en" ..
    have "length view < (pos + ?es) + (entryCount - (i + 1)) * ?es"
      using "1.prems"(2) unfolding d by (simp add: add.assoc)
    from "1.IH"[OF lt en le1 this] show ?thesis
      using lt by (subst parseIfd_entries.simps) (simp add: en)
  qed
qed

text \<open>The reads of parseIfd: the entry count, the entries, the next offset.\<close>

lemma parseIfd_classic:
  assumes "\<not> bigTiff h" and c: "getUint16 v (toNumber (unat off)) (littleEndian h) = Inr c"
  shows "(length v < toNumber (unat off) + 2 + unat c * 12 + 4 \<longrightarrow>
            parseIfd v off h = Inl RangeError)
       \<and> (toNumber (unat off) + 2 + unat c * 12 + 4 \<le> length v \<longrightarrow>
            (\<exists>d. parseIfd v off h = Inr d \<and> offset d = off \<and> length (entries d) = unat c))"
proof -
  let ?p = "toNumber (unat off)"
  have p2: "?p + 2 \<le> length v" using c getUint16_Inl[of v ?p "littleEndian h"]
    by (cases "length v < ?p + 2") auto
  show ?thesis
  proof (intro conjI impI)
    assume lt: "length v < ?p + 2 + unat c * 12 + 4"
    show "parseIfd v off h = Inl RangeError"
    proof (cases "length v < ?p + 2 + unat c * 12")
      case True
      then have "parseIfd_entries v h (unat c) 0 (?p + 2) [] = Inl RangeError"
        using parseIfd_entries_fail[of "?p + 2" v "unat c" 0 h "[]"] p2 assms(1)
        by (simp del: add_2_eq_Suc add_2_eq_Suc')
      then show ?thesis using assms(1) by (simp add: parseIfd_def Let_def c del: add_2_eq_Suc add_2_eq_Suc')
    next
      case False
      then have "(?p + 2) + (unat c - 0) * (if bigTiff h then 20 else 12) \<le> length v"
        using assms(1) by simp
      from parseIfd_entries_ok[OF this, of "[]"] obtain ents where
        e: "parseIfd_entries v h (unat c) 0 (?p + 2) [] = Inr (ents, ?p + 2 + unat c * 12)"
        using assms(1) by (auto simp del: add_2_eq_Suc add_2_eq_Suc')
      have "getUint32 v (?p + 2 + unat c * 12) (littleEndian h) = Inl RangeError"
        using lt by (simp add: getUint32_def getUint_def del: add_2_eq_Suc add_2_eq_Suc')
      then show ?thesis using assms(1) by (simp add: parseIfd_def Let_def c e del: add_2_eq_Suc add_2_eq_Suc')
    qed
  next
    assume le: "?p + 2 + unat c * 12 + 4 \<le> length v"
    then have "(?p + 2) + (unat c - 0) * (if bigTiff h then 20 else 12) \<le> length v"
      using assms(1) by simp
    from parseIfd_entries_ok[OF this, of "[]"] obtain ents where
      e: "parseIfd_entries v h (unat c) 0 (?p + 2) [] = Inr (ents, ?p + 2 + unat c * 12)"
      and l: "length ents = unat c"
      using assms(1) by (auto simp del: add_2_eq_Suc add_2_eq_Suc')
    from getUint32_ok[OF le] obtain x where
      x: "getUint32 v (?p + 2 + unat c * 12) (littleEndian h) = Inr x" ..
    show "\<exists>d. parseIfd v off h = Inr d \<and> offset d = off \<and> length (entries d) = unat c"
      using assms(1) l by (simp add: parseIfd_def Let_def c e x del: add_2_eq_Suc add_2_eq_Suc')
  qed
qed

lemma parseIfd_wide:
  assumes "bigTiff h" and c: "getBigUint64 v (toNumber (unat off)) (littleEndian h) = Inr c"
  shows "(length v < toNumber (unat off) + 8 + toNumber (unat c) * 20 + 8 \<longrightarrow>
            parseIfd v off h = Inl RangeError)
       \<and> (toNumber (unat off) + 8 + toNumber (unat c) * 20 + 8 \<le> length v \<longrightarrow>
            (\<exists>d. parseIfd v off h = Inr d \<and> offset d = off
                 \<and> length (entries d) = toNumber (unat c)))"
proof -
  let ?p = "toNumber (unat off)"
  let ?n = "toNumber (unat c)"
  have p2: "?p + 8 \<le> length v" using c getBigUint64_Inl[of v ?p "littleEndian h"]
    by (cases "length v < ?p + 8") auto
  show ?thesis
  proof (intro conjI impI)
    assume lt: "length v < ?p + 8 + ?n * 20 + 8"
    show "parseIfd v off h = Inl RangeError"
    proof (cases "length v < ?p + 8 + ?n * 20")
      case True
      then have "parseIfd_entries v h ?n 0 (?p + 8) [] = Inl RangeError"
        using parseIfd_entries_fail[of "?p + 8" v ?n 0 h "[]"] p2 assms(1) by simp
      then show ?thesis using assms(1) by (simp add: parseIfd_def Let_def c)
    next
      case False
      then have "(?p + 8) + (?n - 0) * (if bigTiff h then 20 else 12) \<le> length v"
        using assms(1) by simp
      from parseIfd_entries_ok[OF this, of "[]"] obtain ents where
        e: "parseIfd_entries v h ?n 0 (?p + 8) [] = Inr (ents, ?p + 8 + ?n * 20)"
        using assms(1) by auto
      have "getBigUint64 v (?p + 8 + ?n * 20) (littleEndian h) = Inl RangeError"
        using lt by (simp add: getBigUint64_def getUint_def)
      then show ?thesis using assms(1) by (simp add: parseIfd_def Let_def c e)
    qed
  next
    assume le: "?p + 8 + ?n * 20 + 8 \<le> length v"
    then have "(?p + 8) + (?n - 0) * (if bigTiff h then 20 else 12) \<le> length v"
      using assms(1) by simp
    from parseIfd_entries_ok[OF this, of "[]"] obtain ents where
      e: "parseIfd_entries v h ?n 0 (?p + 8) [] = Inr (ents, ?p + 8 + ?n * 20)"
      and l: "length ents = ?n"
      using assms(1) by auto
    from getBigUint64_ok[OF le] obtain x where
      x: "getBigUint64 v (?p + 8 + ?n * 20) (littleEndian h) = Inr x" ..
    show "\<exists>d. parseIfd v off h = Inr d \<and> offset d = off \<and> length (entries d) = ?n"
      using assms(1) l by (simp add: parseIfd_def Let_def c e x)
  qed
qed

lemma parseIfd_count_fail:
  "length v < toNumber (unat off) + (if bigTiff h then 8 else 2) \<Longrightarrow>
     parseIfd v off h = Inl RangeError"
  by (cases "bigTiff h") (simp_all add: parseIfd_def Let_def getUint16_def getBigUint64_def getUint_def)

lemma parseIfd_Inl: "parseIfd v off h = Inl e \<Longrightarrow> e = RangeError"
  by (auto simp: parseIfd_def Let_def getUint16_Inl getUint32_Inl getBigUint64_Inl
           split: sum.splits if_splits prod.splits dest: parseIfd_entries_Inl)

lemma parseIfd_offset: "parseIfd v off h = Inr d \<Longrightarrow> offset d = off"
  by (auto simp: parseIfd_def Let_def split: sum.splits if_splits prod.splits)

section \<open>The chain walk\<close>

lemma walk_state_loop:
  "walk_state v h acc seen cur \<Longrightarrow> parseAllIfds_loop v h acc seen cur = parseAllIfds v h"
proof (induction rule: walk_state.induct)
  case walk_start
  show ?case by (simp add: parseAllIfds_def)
next
  case (walk_step acc seen cur ifd)
  then show ?case by (subst (asm) parseAllIfds_loop.simps) simp
qed

lemma walk_state_inv:
  "walk_state v h acc seen cur \<Longrightarrow>
     seen = set (map offset acc) \<and> distinct (map offset acc) \<and> 0 \<notin> seen \<and> length acc \<le> MAX_IFDS"
proof (induction rule: walk_state.induct)
  case walk_start
  show ?case by simp
next
  case (walk_step acc seen cur ifd)
  from parseIfd_offset[OF walk_step.hyps(5)] walk_step show ?case by auto
qed

lemma walk_circular:
  assumes "walk_state v h acc seen cur" and "cur \<in> seen" and "length acc < MAX_IFDS"
  shows "parseAllIfds v h =
           Inl (Error (''Circular IFD reference detected at offset '' @ show_nat (unat cur)))"
proof -
  have "cur \<noteq> 0" using walk_state_inv[OF assms(1)] assms(2) by auto
  then have "parseAllIfds_loop v h acc seen cur =
           Inl (Error (''Circular IFD reference detected at offset '' @ show_nat (unat cur)))"
    using assms(2,3) by (subst parseAllIfds_loop.simps) simp
  then show ?thesis using walk_state_loop[OF assms(1)] by simp
qed

lemma walk_too_long:
  assumes "walk_state v h acc seen cur" and "cur \<noteq> 0" and "length acc = MAX_IFDS"
  shows "parseAllIfds v h =
           Inl (Error ''Esceeded maximum IFD count (1000), file may be malformed'')"
proof -
  have "parseAllIfds_loop v h acc seen cur =
           Inl (Error ''Esceeded maximum IFD count (1000), file may be malformed'')"
    using assms(2,3)
    by (subst parseAllIfds_loop.simps) (simp add: MAX_IFDS_def show_nat.simps digit_def)
  then show ?thesis using walk_state_loop[OF assms(1)] by simp
qed

lemma loop_Inr:
  "parseAllIfds_loop v h acc seen cur = Inr r \<Longrightarrow> length acc \<le> MAX_IFDS \<Longrightarrow>
     \<exists>ds. r = acc @ ds \<and> chain v h cur ds \<and> length r \<le> MAX_IFDS
          \<and> distinct (map offset ds) \<and> set (map offset ds) \<inter> seen = {}"
proof (induction v h acc seen cur rule: parseAllIfds_loop.induct)
  case (1 view hdr acc seen cur)
  show ?case
  proof (cases "cur = 0")
    case True
    then have "r = acc" using "1.prems"(1) by (subst (asm) parseAllIfds_loop.simps) simp
    with True "1.prems"(2) show ?thesis by (auto intro: chain_end)
  next
    case False
    from "1.prems"(1) False have lt: "\<not> MAX_IFDS \<le> length acc" and ns: "cur \<notin> seen"
      by (subst (asm) parseAllIfds_loop.simps, simp split: if_splits)+
    from "1.prems"(1) False lt ns obtain ifd where
      p: "parseIfd view cur hdr = Inr ifd" and
      rec: "parseAllIfds_loop view hdr (acc @ [ifd]) (insert cur seen) (nextIfdOffset ifd) = Inr r"
      by (subst (asm) parseAllIfds_loop.simps) (auto split: sum.splits)
    have "length (acc @ [ifd]) \<le> MAX_IFDS" using lt by simp
    from "1.IH"[OF False lt ns p rec this] obtain ds where
      ds: "r = (acc @ [ifd]) @ ds" "chain view hdr (nextIfdOffset ifd) ds" "length r \<le> MAX_IFDS"
        "distinct (map offset ds)" "set (map offset ds) \<inter> insert cur seen = {}"
      by blast
    have "chain view hdr cur (ifd # ds)" using False p ds(2) by (rule chain_next)
    moreover have "offset ifd = cur" using p by (rule parseIfd_offset)
    ultimately show ?thesis using ds ns by (intro exI[of _ "ifd # ds"]) auto
  qed
qed

lemma chain_det: "chain v h off ds \<Longrightarrow> chain v h off ds' \<Longrightarrow> ds = ds'"
proof (induction arbitrary: ds' rule: chain.induct)
  case chain_end
  then show ?case by (auto elim: chain.cases)
next
  case (chain_next off ifd ds)
  from chain_next.prems chain_next.hyps(1,2) obtain ds'' where
    "ds' = ifd # ds''" "chain v h (nextIfdOffset ifd) ds''"
    by (auto elim: chain.cases)
  with chain_next.IH show ?case by simp
qed

lemma chain_suffix: "chain v h off (xs @ d # ys) \<Longrightarrow> chain v h (offset d) (d # ys)"
proof (induction xs arbitrary: off)
  case Nil
  then have "offset d = off" by (auto elim: chain.cases dest: parseIfd_offset)
  with Nil show ?case by simp
next
  case (Cons x xs)
  from Cons.prems have "chain v h (nextIfdOffset x) (xs @ d # ys)"
    by (auto elim: chain.cases)
  then show ?case by (rule Cons.IH)
qed

lemma chain_distinct: "chain v h off ds \<Longrightarrow> distinct (map offset ds)"
proof (induction rule: chain.induct)
  case chain_end
  show ?case by simp
next
  case (chain_next off ifd ds)
  have o: "offset ifd = off" using chain_next.hyps(2) by (rule parseIfd_offset)
  have "off \<notin> set (map offset ds)"
  proof
    assume "off \<in> set (map offset ds)"
    then obtain d where "d \<in> set ds" "offset d = off" by auto
    then obtain xs ys where s: "ds = xs @ d # ys" by (auto simp: in_set_conv_decomp)
    with chain_next.hyps(3) have "chain v h (offset d) (d # ys)" by (auto intro: chain_suffix)
    with \<open>offset d = off\<close> have 1: "chain v h off (d # ys)" by simp
    have 2: "chain v h off (ifd # ds)" using chain_next.hyps by (rule chain.chain_next)
    from chain_det[OF 1 2] s show False by auto
  qed
  with chain_next.IH o show ?case by simp
qed

lemma chain_loop:
  "chain v h cur ds \<Longrightarrow> length acc + length ds \<le> MAX_IFDS \<Longrightarrow>
     set (map offset ds) \<inter> seen = {} \<Longrightarrow>
     parseAllIfds_loop v h acc seen cur = Inr (acc @ ds)"
proof (induction arbitrary: acc seen rule: chain.induct)
  case chain_end
  show ?case by (subst parseAllIfds_loop.simps) simp
next
  case (chain_next off ifd ds)
  have o: "offset ifd = off" using chain_next.hyps(2) by (rule parseIfd_offset)
  have "chain v h off (ifd # ds)" using chain_next.hyps by (rule chain.chain_next)
  from chain_distinct[OF this] o have nd: "off \<notin> set (map offset ds)" by simp
  have lt: "\<not> MAX_IFDS \<le> length acc" using chain_next.prems(1) by simp
  have ns: "off \<notin> seen" using chain_next.prems(2) o by auto
  have "parseAllIfds_loop v h (acc @ [ifd]) (insert off seen) (nextIfdOffset ifd)
          = Inr ((acc @ [ifd]) @ ds)"
    using chain_next.prems nd by (intro chain_next.IH) auto
  then show ?case
    using chain_next.hyps(1,2) lt ns by (subst parseAllIfds_loop.simps) simp
qed

section \<open>The ring file\<close>

lemma length_concat_fixed:
  "(\<forall>x \<in> set xs. length (f x) = n) \<Longrightarrow> length (concat (map f xs)) = n * length xs"
  by (induction xs) auto

lemma drop_concat_fixed:
  "(\<forall>x \<in> set xs. length (f x) = n) \<Longrightarrow>
     drop (n * k) (concat (map f xs)) = concat (map f (drop k xs))"
proof (induction xs arbitrary: k)
  case Nil
  show ?case by simp
next
  case (Cons x xs)
  show ?case
  proof (cases k)
    case 0
    then show ?thesis by simp
  next
    case (Suc k')
    have "drop (n * Suc k') (f x @ concat (map f xs)) = drop (n * k') (concat (map f xs))"
      using Cons.prems by simp
    also have "\<dots> = concat (map f (drop k' xs))" using Cons.prems by (intro Cons.IH) simp
    finally show ?thesis using Suc by simp
  qed
qed

lemma length_ring_dir: "length (ring_dir i) = 6"
  by (simp add: ring_dir_def)

lemma length_ring_view: "length ring_view = 8 + 6 * MAX_IFDS"
  by (simp add: ring_view_def length_concat_fixed[where n = 6] length_ring_dir)

lemma drop_ring_view:
  assumes "i < MAX_IFDS"
  shows "drop (8 + 6 * i) ring_view = ring_dir i @ concat (map ring_dir [Suc i..<MAX_IFDS])"
proof -
  have "drop (8 + 6 * i) ring_view = drop (6 * i) (drop 8 ring_view)"
    by (simp add: add.commute)
  also have "drop 8 ring_view = concat (map ring_dir [0..<MAX_IFDS])"
    by (simp add: ring_view_def)
  also have "drop (6 * i) (concat (map ring_dir [0..<MAX_IFDS]))
               = concat (map ring_dir (drop i [0..<MAX_IFDS]))"
    by (rule drop_concat_fixed) (simp add: length_ring_dir)
  also have "drop i [0..<MAX_IFDS] = [i..<MAX_IFDS]" by simp
  also have "[i..<MAX_IFDS] = i # [Suc i..<MAX_IFDS]" using assms by (rule upt_conv_Cons)
  finally show ?thesis by simp
qed

lemma ring_next_lt: "ring_next i < 6008"
proof -
  have "(i + 1) mod MAX_IFDS < 1000" by (simp add: MAX_IFDS_def)
  then show ?thesis unfolding ring_next_def by linarith
qed

lemma ring_count:
  assumes "i < MAX_IFDS"
  shows "getUint16 ring_view (8 + 6 * i) True = Inr 0"
proof -
  have "8 + 6 * i + 2 \<le> length ring_view" using assms by (simp add: length_ring_view)
  then show ?thesis
    by (simp add: getUint16_def getUint_def drop_ring_view[OF assms] ring_dir_def be_nat_def)
qed

lemma ring_pointer:
  assumes "i < MAX_IFDS"
  shows "getUint32 ring_view (8 + 6 * i + 2) True = Inr (word_of_nat (ring_next i))"
proof -
  let ?N = "ring_next i"
  have l: "8 + 6 * i + 2 + 4 \<le> length ring_view" using assms by (simp add: length_ring_view)
  have d: "drop (8 + 6 * i + 2) ring_view = drop 2 (drop (8 + 6 * i) ring_view)"
    by (simp add: add.commute)
  have t: "take 4 (drop (8 + 6 * i + 2) ring_view)
             = [word_of_nat (?N mod 256), word_of_nat (?N div 256), 0, 0]"
    unfolding d drop_ring_view[OF assms] by (simp add: ring_dir_def)
  have lo: "unat (word_of_nat (?N mod 256) :: 8 word) = ?N mod 256"
    by (simp only: unat_of_nat) simp
  have "?N div 256 < 256" using ring_next_lt[of i] by simp
  then have hi: "unat (word_of_nat (?N div 256) :: 8 word) = ?N div 256"
    by (simp only: unat_of_nat) simp
  have "be_nat (rev [word_of_nat (?N mod 256), word_of_nat (?N div 256), 0, 0 :: 8 word]) = ?N"
    unfolding be_nat_def by (simp only: rev.simps append.simps foldl.simps lo hi) simp
  then have "getUint ring_view (8 + 6 * i + 2) 4 True = Inr ?N"
    using l unfolding getUint_def t by simp
  then show ?thesis by (simp only: getUint32_def sum.case)
qed

lemma unat_ring_offset: "i \<le> MAX_IFDS \<Longrightarrow> unat (ring_offset i) = 8 + 6 * i"
  unfolding ring_offset_def MAX_IFDS_def by (simp only: unat_of_nat) simp

lemma parseIfd_ring:
  assumes "i < MAX_IFDS"
  shows "parseIfd ring_view (ring_offset i) ring_hdr = Inr (ring_ifd i)"
proof -
  have "8 + 6 * i < 2 ^ 53" using assms by (simp add: MAX_IFDS_def)
  then have u: "toNumber (unat (ring_offset i)) = 8 + 6 * i"
    using assms by (simp add: unat_ring_offset toNumber_small)
  have n: "ring_next i < 2 ^ 32" using ring_next_lt[of i] by simp
  show ?thesis
    unfolding parseIfd_def Let_def u
    using ring_count[OF assms] ring_pointer[OF assms]
    by (simp add: ring_hdr_def parseIfd_entries.simps ring_ifd_def ucast_of_nat_32_64[OF n]
          del: add_2_eq_Suc add_2_eq_Suc')
qed

lemma ring_offset_inj:
  "i \<le> MAX_IFDS \<Longrightarrow> j \<le> MAX_IFDS \<Longrightarrow> ring_offset i = ring_offset j \<Longrightarrow> i = j"
  by (simp add: word_unat_eq_iff unat_ring_offset)

lemma ring_offset_nz: "i \<le> MAX_IFDS \<Longrightarrow> ring_offset i \<noteq> 0"
  by (simp add: word_unat_eq_iff unat_ring_offset)

lemma ring_walk:
  "k \<le> MAX_IFDS \<Longrightarrow>
     walk_state ring_view ring_hdr (map ring_ifd [0..<k]) (ring_offset ` {0..<k})
       (ring_offset (k mod MAX_IFDS))"
proof (induction k)
  case 0
  have "walk_state ring_view ring_hdr [] {} (firstIfdOffset ring_hdr)" by (rule walk_start)
  then show ?case by (simp add: ring_hdr_def ring_offset_def)
next
  case (Suc k)
  then have k: "k < MAX_IFDS" by simp
  then have km: "k mod MAX_IFDS = k" by simp
  have w: "walk_state ring_view ring_hdr (map ring_ifd [0..<k]) (ring_offset ` {0..<k})
             (ring_offset k)"
    using Suc km by simp
  have ns: "ring_offset k \<notin> ring_offset ` {0..<k}"
    using k by (auto dest!: ring_offset_inj[rotated 2])
  have nz: "ring_offset k \<noteq> 0" using k by (intro ring_offset_nz) simp
  have len: "length (map ring_ifd [0..<k]) < MAX_IFDS" using k by simp
  have "walk_state ring_view ring_hdr (map ring_ifd [0..<k] @ [ring_ifd k])
          (insert (ring_offset k) (ring_offset ` {0..<k})) (nextIfdOffset (ring_ifd k))"
    using w nz len ns parseIfd_ring[OF k] by (rule walk_step)
  moreover have "nextIfdOffset (ring_ifd k) = ring_offset (Suc k mod MAX_IFDS)"
    by (simp add: ring_ifd_def ring_next_def ring_offset_def)
  moreover have "insert (ring_offset k) (ring_offset ` {0..<k}) = ring_offset ` {0..<Suc k}"
    by (auto simp: less_Suc_eq)
  ultimately show ?case by simp
qed

lemma ring_full: "walk_state ring_view ring_hdr ring_ifds ring_seen 8"
proof -
  have "ring_offset (MAX_IFDS mod MAX_IFDS) = 8" by (simp add: ring_offset_def)
  with ring_walk[of MAX_IFDS] show ?thesis by (simp add: ring_ifds_def ring_seen_def)
qed

lemma ring_8_seen: "8 \<in> ring_seen"
proof -
  have "ring_offset 0 = 8" by (simp add: ring_offset_def)
  moreover have "ring_offset 0 \<in> ring_seen"
    unfolding ring_seen_def by (rule imageI) (simp add: MAX_IFDS_def)
  ultimately show ?thesis by simp
qed

lemma length_ring_ifds: "length ring_ifds = MAX_IFDS"
  by (simp add: ring_ifds_def)

lemma ring_header: "parseHeader ring_view = Inr ring_hdr"
  by (simp add: parseHeader_def ring_view_def getUint16_def getUint32_def getUint_def be_nat_def
        ring_hdr_def)

section \<open>Properties of the parser\<close>

lemma chain_last: "chain v h off ds \<Longrightarrow> ds \<noteq> [] \<Longrightarrow> nextIfdOffset (last ds) = 0"
proof (induction rule: chain.induct)
  case chain_end
  then show ?case by simp
next
  case (chain_next off ifd ds)
  show ?case
  proof (cases "ds = []")
    case True
    with chain_next.hyps(3) have "nextIfdOffset ifd = 0" by (auto elim: chain.cases)
    with True show ?thesis by simp
  next
    case False
    with chain_next.IH show ?thesis by simp
  qed
qed

text \<open>
  C7. A buffer whose first two bytes are neither \<open>49 49\<close> nor \<open>4D 4D\<close> makes
  \<open>parseHeader\<close> fail with the byte-order-marker error. A buffer with one of the two markers
  whose format code \<open>m\<close> (bytes 2 and 3 in the byte order of the marker) is neither 42 nor 43
  makes it fail with the magic-number error, which names \<open>m\<close>. In both cases \<open>parseTiff\<close>
  fails with the same error: no directory is read.
\<close>

theorem parseHeader_rejects:
  "(2 \<le> length v \<and> \<not> (v ! 0 = 0x49 \<and> v ! 1 = 0x49) \<and> \<not> (v ! 0 = 0x4d \<and> v ! 1 = 0x4d) \<longrightarrow>
      parseHeader v = Inl (Error ''Not a valid TIFF file: bad byte order marker'')
      \<and> parseTiff v = Inl (Error ''Not a valid TIFF file: bad byte order marker''))
   \<and> (4 \<le> length v \<and> v ! 0 = mk \<and> v ! 1 = mk \<and> mk = (if le then 0x49 else 0x4d)
       \<and> m = (if le then unat (v ! 2) + 256 * unat (v ! 3) else 256 * unat (v ! 2) + unat (v ! 3))
       \<and> m \<noteq> 42 \<and> m \<noteq> 43 \<longrightarrow>
      parseHeader v = Inl (Error (''Not a valid TIFF file: bad magic number '' @ show_nat m))
      \<and> parseTiff v = Inl (Error (''Not a valid TIFF file: bad magic number '' @ show_nat m)))"
proof (intro conjI impI)
  assume a: "2 \<le> length v \<and> \<not> (v ! 0 = 0x49 \<and> v ! 1 = 0x49) \<and> \<not> (v ! 0 = 0x4d \<and> v ! 1 = 0x4d)"
  then show 1: "parseHeader v = Inl (Error ''Not a valid TIFF file: bad byte order marker'')"
    by (intro parseHeader_bad_marker) simp_all
  then show "parseTiff v = Inl (Error ''Not a valid TIFF file: bad byte order marker'')"
    by (rule parseTiff_header_error)
next
  assume a: "4 \<le> length v \<and> v ! 0 = mk \<and> v ! 1 = mk \<and> mk = (if le then 0x49 else 0x4d)
       \<and> m = (if le then unat (v ! 2) + 256 * unat (v ! 3) else 256 * unat (v ! 2) + unat (v ! 3))
       \<and> m \<noteq> 42 \<and> m \<noteq> 43"
  then show 2: "parseHeader v = Inl (Error (''Not a valid TIFF file: bad magic number '' @ show_nat m))"
    by (intro parseHeader_bad_magic[of v mk le m]) simp_all
  then show "parseTiff v = Inl (Error (''Not a valid TIFF file: bad magic number '' @ show_nat m))"
    by (rule parseTiff_header_error)
qed

theorem parseHeader_rejects_witness:
  "parseHeader [0x00, 0x00, 0x2A, 0x00, 0x08, 0x00, 0x00, 0x00] =
     Inl (Error ''Not a valid TIFF file: bad byte order marker'')
   \<and> parseHeader [0x49, 0x49, 0x00, 0x00, 0x08, 0x00, 0x00, 0x00] =
     Inl (Error ''Not a valid TIFF file: bad magic number 0'')"
proof -
  have 1: "parseHeader [0x00, 0x00, 0x2A, 0x00, 0x08, 0x00, 0x00, 0x00] =
     Inl (Error ''Not a valid TIFF file: bad byte order marker'')"
    using parseHeader_rejects[where v = "[0x00, 0x00, 0x2A, 0x00, 0x08, 0x00, 0x00, 0x00]"]
    by simp
  have 2: "parseHeader [0x49, 0x49, 0x00, 0x00, 0x08, 0x00, 0x00, 0x00] =
     Inl (Error (''Not a valid TIFF file: bad magic number '' @ show_nat 0))"
    using parseHeader_rejects[where v = "[0x49, 0x49, 0x00, 0x00, 0x08, 0x00, 0x00, 0x00]"
            and mk = "0x49" and le = True and m = 0]
    by simp
  show ?thesis using 1 2 by (simp add: show_nat.simps digit_def)
qed

text \<open>
  C6, as the specification states it, fails on a buffer that ends before the offset field:
  eight bytes with the marker \<open>49 49\<close> and the wide format code 43 give no header, the
  read of bytes 8 to 15 is out of range.
\<close>

theorem parseHeader_truncated_counterexample:
  "parseHeader [0x49, 0x49, 0x2B, 0x00, 0x08, 0x00, 0x00, 0x00] = Inl RangeError"
  by (simp add: parseHeader_def getUint16_def getBigUint64_def getUint_def be_nat_def)

text \<open>
  C6, amended. For a buffer that holds the offset field (at least 8 bytes in the classic
  format, at least 16 in the wide one), with a marker \<open>49 49\<close> (little-endian) or
  \<open>4D 4D\<close> (big-endian) and the format code 42 or 43 in that byte order, \<open>parseHeader\<close>
  returns \<open>littleEndian\<close> as the marker says, \<open>bigTiff\<close> false for 42 and true for 43,
  and \<open>firstIfdOffset\<close> the 32-bit value of bytes 4 to 7, or the 64-bit value of bytes 8 to
  15, in that byte order. The bytes \<open>49 49 2A 00 08 00 00 00\<close>, and their big-endian
  counterpart, give offset 8.
\<close>

theorem parseHeader_decodes:
  "(8 \<le> length v \<and> v ! 0 = mk \<and> v ! 1 = mk \<and> mk = (if le then 0x49 else 0x4d)
     \<and> (if le then unat (v ! 2) + 256 * unat (v ! 3) else 256 * unat (v ! 2) + unat (v ! 3)) = 42
     \<longrightarrow> parseHeader v =
       Inr \<lparr>bigTiff = False, littleEndian = le,
            firstIfdOffset = word_of_nat
              (if le then unat (v ! 4) + 256 * unat (v ! 5) + 65536 * unat (v ! 6)
                          + 16777216 * unat (v ! 7)
               else 16777216 * unat (v ! 4) + 65536 * unat (v ! 5) + 256 * unat (v ! 6)
                          + unat (v ! 7))\<rparr>)
   \<and> (16 \<le> length v \<and> v ! 0 = mk \<and> v ! 1 = mk \<and> mk = (if le then 0x49 else 0x4d)
     \<and> (if le then unat (v ! 2) + 256 * unat (v ! 3) else 256 * unat (v ! 2) + unat (v ! 3)) = 43
     \<longrightarrow> parseHeader v =
       Inr \<lparr>bigTiff = True, littleEndian = le,
            firstIfdOffset = word_of_nat
              (if le then unat (v ! 8) + 256 * unat (v ! 9) + 256 ^ 2 * unat (v ! 10)
                          + 256 ^ 3 * unat (v ! 11) + 256 ^ 4 * unat (v ! 12)
                          + 256 ^ 5 * unat (v ! 13) + 256 ^ 6 * unat (v ! 14)
                          + 256 ^ 7 * unat (v ! 15)
               else 256 ^ 7 * unat (v ! 8) + 256 ^ 6 * unat (v ! 9) + 256 ^ 5 * unat (v ! 10)
                          + 256 ^ 4 * unat (v ! 11) + 256 ^ 3 * unat (v ! 12)
                          + 256 ^ 2 * unat (v ! 13) + 256 * unat (v ! 14)
                          + unat (v ! 15))\<rparr>)
   \<and> parseHeader [0x49, 0x49, 0x2A, 0x00, 0x08, 0x00, 0x00, 0x00] =
       Inr \<lparr>bigTiff = False, littleEndian = True, firstIfdOffset = 8\<rparr>
   \<and> parseHeader [0x4D, 0x4D, 0x00, 0x2A, 0x00, 0x00, 0x00, 0x08] =
       Inr \<lparr>bigTiff = False, littleEndian = False, firstIfdOffset = 8\<rparr>"
proof (intro conjI impI)
  assume "8 \<le> length v \<and> v ! 0 = mk \<and> v ! 1 = mk \<and> mk = (if le then 0x49 else 0x4d)
     \<and> (if le then unat (v ! 2) + 256 * unat (v ! 3) else 256 * unat (v ! 2) + unat (v ! 3)) = 42"
  then show "parseHeader v =
       Inr \<lparr>bigTiff = False, littleEndian = le,
            firstIfdOffset = word_of_nat
              (if le then unat (v ! 4) + 256 * unat (v ! 5) + 65536 * unat (v ! 6)
                          + 16777216 * unat (v ! 7)
               else 16777216 * unat (v ! 4) + 65536 * unat (v ! 5) + 256 * unat (v ! 6)
                          + unat (v ! 7))\<rparr>"
    by (intro parseHeader_classic[of v mk le]) simp_all
next
  assume "16 \<le> length v \<and> v ! 0 = mk \<and> v ! 1 = mk \<and> mk = (if le then 0x49 else 0x4d)
     \<and> (if le then unat (v ! 2) + 256 * unat (v ! 3) else 256 * unat (v ! 2) + unat (v ! 3)) = 43"
  then show "parseHeader v =
       Inr \<lparr>bigTiff = True, littleEndian = le,
            firstIfdOffset = word_of_nat
              (if le then unat (v ! 8) + 256 * unat (v ! 9) + 256 ^ 2 * unat (v ! 10)
                          + 256 ^ 3 * unat (v ! 11) + 256 ^ 4 * unat (v ! 12)
                          + 256 ^ 5 * unat (v ! 13) + 256 ^ 6 * unat (v ! 14)
                          + 256 ^ 7 * unat (v ! 15)
               else 256 ^ 7 * unat (v ! 8) + 256 ^ 6 * unat (v ! 9) + 256 ^ 5 * unat (v ! 10)
                          + 256 ^ 4 * unat (v ! 11) + 256 ^ 3 * unat (v ! 12)
                          + 256 ^ 2 * unat (v ! 13) + 256 * unat (v ! 14)
                          + unat (v ! 15))\<rparr>"
    by (intro parseHeader_wide[of v mk le]) simp_all
next
  show "parseHeader [0x49, 0x49, 0x2A, 0x00, 0x08, 0x00, 0x00, 0x00] =
       Inr \<lparr>bigTiff = False, littleEndian = True, firstIfdOffset = 8\<rparr>"
    by (simp add: parseHeader_def getUint16_def getUint32_def getUint_def be_nat_def)
next
  show "parseHeader [0x4D, 0x4D, 0x00, 0x2A, 0x00, 0x00, 0x00, 0x08] =
       Inr \<lparr>bigTiff = False, littleEndian = False, firstIfdOffset = 8\<rparr>"
    by (simp add: parseHeader_def getUint16_def getUint32_def getUint_def be_nat_def)
qed

theorem parseHeader_decodes_witness:
  "parseHeader [0x49, 0x49, 0x2B, 0x00, 0x08, 0x00, 0x00, 0x00,
                0x10, 0x00, 0x00, 0x00, 0x00, 0x00, 0x00, 0x00] =
     Inr \<lparr>bigTiff = True, littleEndian = True, firstIfdOffset = 16\<rparr>
   \<and> parseHeader [0x4D, 0x4D, 0x00, 0x2A, 0x00, 0x00, 0x01, 0x02] =
     Inr \<lparr>bigTiff = False, littleEndian = False, firstIfdOffset = 258\<rparr>"
proof -
  have 1: "parseHeader [0x49, 0x49, 0x2B, 0x00, 0x08, 0x00, 0x00, 0x00,
                0x10, 0x00, 0x00, 0x00, 0x00, 0x00, 0x00, 0x00] =
     Inr \<lparr>bigTiff = True, littleEndian = True, firstIfdOffset = 16\<rparr>"
    using parseHeader_decodes[where v = "[0x49, 0x49, 0x2B, 0x00, 0x08, 0x00, 0x00, 0x00,
                0x10, 0x00, 0x00, 0x00, 0x00, 0x00, 0x00, 0x00]" and mk = "0x49" and le = True]
    by simp
  have 2: "parseHeader [0x4D, 0x4D, 0x00, 0x2A, 0x00, 0x00, 0x01, 0x02] =
     Inr \<lparr>bigTiff = False, littleEndian = False, firstIfdOffset = 258\<rparr>"
    using parseHeader_decodes[where v = "[0x4D, 0x4D, 0x00, 0x2A, 0x00, 0x00, 0x01, 0x02]"
            and mk = "0x4D" and le = False]
    by simp
  show ?thesis using 1 2 by simp
qed

text \<open>
  C10. When the header decodes with first directory offset 0, \<open>parseAllIfds\<close> returns the
  empty list without an error, \<open>parseTiff\<close> succeeds with no directories, and \<open>validate\<close>
  on that structure reports \<open>valid = false\<close> with the error \<open>No IFDs found in file\<close>.
\<close>

theorem zero_first_offset:
  "parseHeader v = Inr h \<Longrightarrow> firstIfdOffset h = 0 \<Longrightarrow>
     parseAllIfds v h = Inr []
     \<and> parseTiff v = Inr \<lparr>header = h, ifds = []\<rparr>
     \<and> validate \<lparr>header = h, ifds = []\<rparr> =
         \<lparr>valid = False, errors = [''No IFDs found in file''], warnings = []\<rparr>"
  by (simp add: parseAllIfds_zero parseTiff_def validate_def)

theorem zero_first_offset_witness:
  "parseTiff [0x49, 0x49, 0x2A, 0x00, 0x00, 0x00, 0x00, 0x00] =
     Inr \<lparr>header = \<lparr>bigTiff = False, littleEndian = True, firstIfdOffset = 0\<rparr>, ifds = []\<rparr>
   \<and> validate \<lparr>header = \<lparr>bigTiff = False, littleEndian = True, firstIfdOffset = 0\<rparr>, ifds = []\<rparr> =
         \<lparr>valid = False, errors = [''No IFDs found in file''], warnings = []\<rparr>"
proof -
  have p: "parseHeader [0x49, 0x49, 0x2A, 0x00, 0x00, 0x00, 0x00, 0x00] =
             Inr \<lparr>bigTiff = False, littleEndian = True, firstIfdOffset = 0\<rparr>"
    by (simp add: parseHeader_def getUint16_def getUint32_def getUint_def be_nat_def)
  show ?thesis using zero_first_offset[OF p] by simp
qed

text \<open>
  C8. \<open>parseIfd\<close> fails in one way only, with the \<open>RangeError\<close> of the view, which is not
  an \<open>Error\<close> of the parser. It does so when the entry count does not lie inside the
  buffer, and, the count being read, exactly when the entries and the next-directory offset
  after them do not lie inside the buffer (12-byte entries after a 2-byte count and a 4-byte
  offset in the classic format, 20-byte entries after an 8-byte count and an 8-byte offset in
  the wide one). A read that returns a value lies inside the buffer.
\<close>

theorem parseIfd_truncated:
  "(parseIfd v off h = Inl e \<longrightarrow> e = RangeError)
   \<and> (length v < toNumber (unat off) + (if bigTiff h then 8 else 2) \<longrightarrow>
        parseIfd v off h = Inl RangeError)
   \<and> (\<not> bigTiff h \<and> getUint16 v (toNumber (unat off)) (littleEndian h) = Inr c16 \<longrightarrow>
        (parseIfd v off h = Inl RangeError
           \<longleftrightarrow> length v < toNumber (unat off) + 2 + unat c16 * 12 + 4))
   \<and> (bigTiff h \<and> getBigUint64 v (toNumber (unat off)) (littleEndian h) = Inr c64 \<longrightarrow>
        (parseIfd v off h = Inl RangeError
           \<longleftrightarrow> length v < toNumber (unat off) + 8 + toNumber (unat c64) * 20 + 8))
   \<and> (getUint v p n le = Inr x \<longrightarrow> p + n \<le> length v)"
proof (intro conjI impI)
  assume "parseIfd v off h = Inl e"
  then show "e = RangeError" by (rule parseIfd_Inl)
next
  assume "length v < toNumber (unat off) + (if bigTiff h then 8 else 2)"
  then show "parseIfd v off h = Inl RangeError" by (rule parseIfd_count_fail)
next
  assume a: "\<not> bigTiff h \<and> getUint16 v (toNumber (unat off)) (littleEndian h) = Inr c16"
  from parseIfd_classic[of h v off c16] a
  show "parseIfd v off h = Inl RangeError
           \<longleftrightarrow> length v < toNumber (unat off) + 2 + unat c16 * 12 + 4"
    by (cases "length v < toNumber (unat off) + 2 + unat c16 * 12 + 4") auto
next
  assume a: "bigTiff h \<and> getBigUint64 v (toNumber (unat off)) (littleEndian h) = Inr c64"
  from parseIfd_wide[of h v off c64] a
  show "parseIfd v off h = Inl RangeError
           \<longleftrightarrow> length v < toNumber (unat off) + 8 + toNumber (unat c64) * 20 + 8"
    by (cases "length v < toNumber (unat off) + 8 + toNumber (unat c64) * 20 + 8") auto
next
  assume "getUint v p n le = Inr x"
  then show "p + n \<le> length v" by (simp add: getUint_def split: if_splits)
qed

theorem parseIfd_truncated_witness:
  "parseIfd [0x49, 0x49, 0x2A, 0x00, 0x08, 0x00, 0x00, 0x00, 0x00, 0x00, 0x08, 0x00, 0x00] 8
     \<lparr>bigTiff = False, littleEndian = True, firstIfdOffset = 8\<rparr> = Inl RangeError"
proof -
  let ?v = "[0x49, 0x49, 0x2A, 0x00, 0x08, 0x00, 0x00, 0x00, 0x00, 0x00, 0x08, 0x00, 0x00] :: DataView"
  let ?h = "\<lparr>bigTiff = False, littleEndian = True, firstIfdOffset = 8\<rparr>"
  have t: "toNumber (unat (8 :: 64 word)) = 8" by (simp add: toNumber_def)
  have c: "getUint16 ?v (toNumber (unat (8 :: 64 word))) (littleEndian ?h) = Inr 0"
    unfolding t by (simp add: getUint16_def getUint_def be_nat_def)
  have "\<not> bigTiff ?h \<and> getUint16 ?v (toNumber (unat (8 :: 64 word))) (littleEndian ?h) = Inr 0"
    using c by simp
  with parseIfd_truncated[where v = ?v and off = 8 and h = ?h and ?c16.0 = 0]
  have "parseIfd ?v 8 ?h = Inl RangeError
           \<longleftrightarrow> length ?v < toNumber (unat (8 :: 64 word)) + 2 + unat (0 :: 16 word) * 12 + 4"
    by blast
  then show ?thesis unfolding t by simp
qed

text \<open>
  C4, as the specification states it, fails when 1000 directories have been read: in the ring
  file the walk comes back to offset 8, which it has seen, with 1000 directories in its list,
  and the length check, which comes first in the loop, fails the walk with the error of the
  maximum count, not with the circular-reference error.
\<close>

theorem parseAllIfds_circular_counterexample:
  "walk_state ring_view ring_hdr ring_ifds ring_seen 8
   \<and> 8 \<in> ring_seen
   \<and> parseHeader ring_view = Inr ring_hdr
   \<and> parseAllIfds ring_view ring_hdr =
       Inl (Error ''Esceeded maximum IFD count (1000), file may be malformed'')
   \<and> parseAllIfds ring_view ring_hdr \<noteq>
       Inl (Error (''Circular IFD reference detected at offset '' @ show_nat (unat (8 :: 64 word))))"
proof -
  have "parseAllIfds ring_view ring_hdr =
       Inl (Error ''Esceeded maximum IFD count (1000), file may be malformed'')"
    using ring_full by (rule walk_too_long) (simp_all add: length_ring_ifds)
  then show ?thesis using ring_full ring_8_seen ring_header by simp
qed

text \<open>
  C4, amended. If the walk reaches an offset it has already seen while fewer than 1000
  directories have been read, \<open>parseAllIfds\<close> fails with the circular-reference error that
  names this offset, and so does \<open>parseTiff\<close>: no structure is returned. At every point of
  the walk the offsets seen are those of the directories read, each once, and the directories
  of a successful walk have pairwise different offsets.
\<close>

theorem parseAllIfds_circular:
  "(walk_state v h acc seenOffsets cur \<and> cur \<in> seenOffsets \<and> length acc < MAX_IFDS \<longrightarrow>
      parseAllIfds v h =
        Inl (Error (''Circular IFD reference detected at offset '' @ show_nat (unat cur)))
      \<and> (parseHeader v = Inr h \<longrightarrow>
           parseTiff v =
             Inl (Error (''Circular IFD reference detected at offset '' @ show_nat (unat cur)))))
   \<and> (walk_state v h acc seenOffsets cur \<longrightarrow>
        seenOffsets = set (map offset acc) \<and> distinct (map offset acc))
   \<and> (parseAllIfds v h = Inr ds \<longrightarrow> distinct (map offset ds))"
proof (intro conjI impI)
  assume a: "walk_state v h acc seenOffsets cur \<and> cur \<in> seenOffsets \<and> length acc < MAX_IFDS"
  then show c: "parseAllIfds v h =
        Inl (Error (''Circular IFD reference detected at offset '' @ show_nat (unat cur)))"
    by (intro walk_circular[of v h acc seenOffsets cur]) simp_all
  assume "parseHeader v = Inr h"
  then show "parseTiff v =
             Inl (Error (''Circular IFD reference detected at offset '' @ show_nat (unat cur)))"
    using c by (simp add: parseTiff_def)
next
  assume "walk_state v h acc seenOffsets cur"
  from walk_state_inv[OF this]
  show "seenOffsets = set (map offset acc)" and "distinct (map offset acc)" by simp_all
next
  assume "parseAllIfds v h = Inr ds"
  then have "parseAllIfds_loop v h [] {} (firstIfdOffset h) = Inr ds"
    by (simp add: parseAllIfds_def)
  from loop_Inr[OF this] show "distinct (map offset ds)" by auto
qed

theorem parseAllIfds_circular_witness:
  "parseAllIfds [0x49, 0x49, 0x2A, 0x00, 0x08, 0x00, 0x00, 0x00, 0x00, 0x00, 0x08, 0x00, 0x00, 0x00]
     \<lparr>bigTiff = False, littleEndian = True, firstIfdOffset = 8\<rparr>
   = Inl (Error ''Circular IFD reference detected at offset 8'')"
proof -
  let ?v = "[0x49, 0x49, 0x2A, 0x00, 0x08, 0x00, 0x00, 0x00, 0x00, 0x00, 0x08, 0x00, 0x00, 0x00]
              :: DataView"
  let ?h = "\<lparr>bigTiff = False, littleEndian = True, firstIfdOffset = 8\<rparr>"
  let ?d = "\<lparr>offset = 8, entries = [], nextIfdOffset = 8\<rparr>"
  have p: "parseIfd ?v 8 ?h = Inr ?d"
    by (simp add: parseIfd_def parseIfd_entries.simps getUint16_def getUint32_def getUint_def
          be_nat_def toNumber_def)
  have "walk_state ?v ?h [] {} (firstIfdOffset ?h)" by (rule walk_start)
  then have "walk_state ?v ?h [] {} 8" by simp
  then have "walk_state ?v ?h ([] @ [?d]) (insert 8 {}) (nextIfdOffset ?d)"
    using _ _ _ p by (rule walk_step) (simp_all add: MAX_IFDS_def)
  then have w: "walk_state ?v ?h [?d] {8} 8" by simp
  have "walk_state ?v ?h [?d] {8} 8 \<and> 8 \<in> {8 :: 64 word} \<and> length [?d] < MAX_IFDS"
    using w by (simp add: MAX_IFDS_def)
  with parseAllIfds_circular[where v = ?v and h = ?h and acc = "[?d]" and seenOffsets = "{8}"
         and cur = 8]
  have "parseAllIfds ?v ?h =
        Inl (Error (''Circular IFD reference detected at offset '' @ show_nat (unat (8 :: 64 word))))"
    by blast
  then show ?thesis by (simp add: show_nat.simps digit_def)
qed

text \<open>
  C5. The loop of \<open>parseAllIfds\<close> is a total function, its termination proved with the
  measure \<open>MAX_IFDS - length acc\<close>. When it returns, it returns at most 1000 directories,
  which are the chain from the first offset to a next-directory offset 0. A chain of at most
  1000 directories that ends at offset 0 is returned. A walk that has read 1000 directories
  and is at an offset other than 0 fails with the error that names the maximum 1000, and
  \<open>parseTiff\<close> returns no structure.
\<close>

theorem parseAllIfds_bounded:
  "(parseAllIfds v h = Inr ds \<longrightarrow>
      length ds \<le> 1000 \<and> chain v h (firstIfdOffset h) ds
      \<and> (ds \<noteq> [] \<longrightarrow> nextIfdOffset (last ds) = 0))
   \<and> (chain v h (firstIfdOffset h) ds \<and> length ds \<le> 1000 \<longrightarrow> parseAllIfds v h = Inr ds)
   \<and> (walk_state v h acc seenOffsets cur \<and> cur \<noteq> 0 \<and> length acc = 1000 \<longrightarrow>
        parseAllIfds v h =
          Inl (Error ''Esceeded maximum IFD count (1000), file may be malformed'')
        \<and> (parseHeader v = Inr h \<longrightarrow>
             parseTiff v =
               Inl (Error ''Esceeded maximum IFD count (1000), file may be malformed'')))"
proof (intro conjI impI)
  assume "parseAllIfds v h = Inr ds"
  then have "parseAllIfds_loop v h [] {} (firstIfdOffset h) = Inr ds"
    by (simp add: parseAllIfds_def)
  from loop_Inr[OF this] have l: "length ds \<le> MAX_IFDS" and c: "chain v h (firstIfdOffset h) ds"
    by auto
  from l show "length ds \<le> 1000" by (simp add: MAX_IFDS_def)
  from c show "chain v h (firstIfdOffset h) ds" .
  assume "ds \<noteq> []"
  with c show "nextIfdOffset (last ds) = 0" by (rule chain_last)
next
  assume "chain v h (firstIfdOffset h) ds \<and> length ds \<le> 1000"
  then show "parseAllIfds v h = Inr ds"
    using chain_loop[of v h "firstIfdOffset h" ds "[]" "{}"]
    by (simp add: parseAllIfds_def MAX_IFDS_def)
next
  assume a: "walk_state v h acc seenOffsets cur \<and> cur \<noteq> 0 \<and> length acc = 1000"
  then show t: "parseAllIfds v h =
          Inl (Error ''Esceeded maximum IFD count (1000), file may be malformed'')"
    by (intro walk_too_long[of v h acc seenOffsets cur]) (simp_all add: MAX_IFDS_def)
  assume "parseHeader v = Inr h"
  then show "parseTiff v =
               Inl (Error ''Esceeded maximum IFD count (1000), file may be malformed'')"
    using t by (simp add: parseTiff_def)
qed

theorem parseAllIfds_bounded_witness:
  "parseAllIfds [0x49, 0x49, 0x2A, 0x00, 0x08, 0x00, 0x00, 0x00, 0x00, 0x00, 0x00, 0x00, 0x00, 0x00]
     \<lparr>bigTiff = False, littleEndian = True, firstIfdOffset = 8\<rparr>
     = Inr [\<lparr>offset = 8, entries = [], nextIfdOffset = 0\<rparr>]
   \<and> parseTiff ring_view =
       Inl (Error ''Esceeded maximum IFD count (1000), file may be malformed'')"
proof -
  let ?v = "[0x49, 0x49, 0x2A, 0x00, 0x08, 0x00, 0x00, 0x00, 0x00, 0x00, 0x00, 0x00, 0x00, 0x00]
              :: DataView"
  let ?h = "\<lparr>bigTiff = False, littleEndian = True, firstIfdOffset = 8\<rparr>"
  let ?d = "\<lparr>offset = 8, entries = [], nextIfdOffset = 0\<rparr>"
  have p: "parseIfd ?v 8 ?h = Inr ?d"
    by (simp add: parseIfd_def parseIfd_entries.simps getUint16_def getUint32_def getUint_def
          be_nat_def toNumber_def)
  have "chain ?v ?h (nextIfdOffset ?d) []" using chain_end[of ?v ?h] by simp
  with p have "chain ?v ?h 8 [?d]" by (intro chain_next) simp_all
  then have "chain ?v ?h (firstIfdOffset ?h) [?d] \<and> length [?d] \<le> 1000" by simp
  with parseAllIfds_bounded[where v = ?v and h = ?h and ds = "[?d]"]
  have 1: "parseAllIfds ?v ?h = Inr [?d]" by blast
  have "walk_state ring_view ring_hdr ring_ifds ring_seen 8 \<and> (8 :: 64 word) \<noteq> 0
          \<and> length ring_ifds = 1000"
    using ring_full by (simp add: length_ring_ifds MAX_IFDS_def)
  with parseAllIfds_bounded[where v = ring_view and h = ring_hdr and acc = ring_ifds
         and seenOffsets = ring_seen and cur = 8] ring_header
  have 2: "parseTiff ring_view =
       Inl (Error ''Esceeded maximum IFD count (1000), file may be malformed'')"
    by blast
  show ?thesis using 1 2 by simp
qed

section \<open>The validator on parsed files\<close>

text \<open>
  Every directory that \<open>parseTiff\<close> returns was read inside the buffer, so its offset
  and its estimated size are at most the length of the buffer, and the conversions of
  \<open>validate\<close> to numbers are exact.
\<close>

lemma parseIfd_fits:
  assumes "parseIfd v off h = Inr d"
  shows "toNumber (unat off) + 6 + 12 * length (entries d) \<le> length v"
proof (cases "bigTiff h")
  case False
  obtain c where c: "getUint16 v (toNumber (unat off)) (littleEndian h) = Inr c"
  proof (cases "getUint16 v (toNumber (unat off)) (littleEndian h)")
    case (Inl e)
    then have "parseIfd v off h = Inl e" using False by (simp add: parseIfd_def Let_def)
    with assms show ?thesis by simp
  next
    case (Inr c)
    then show ?thesis by (rule that)
  qed
  from parseIfd_classic[OF False c] assms
  have le: "toNumber (unat off) + 2 + unat c * 12 + 4 \<le> length v"
    by (cases "length v < toNumber (unat off) + 2 + unat c * 12 + 4") auto
  with parseIfd_classic[OF False c] assms have "length (entries d) = unat c" by auto
  with le show ?thesis by simp
next
  case True
  obtain c where c: "getBigUint64 v (toNumber (unat off)) (littleEndian h) = Inr c"
  proof (cases "getBigUint64 v (toNumber (unat off)) (littleEndian h)")
    case (Inl e)
    then have "parseIfd v off h = Inl e" using True by (simp add: parseIfd_def Let_def)
    with assms show ?thesis by simp
  next
    case (Inr c)
    then show ?thesis by (rule that)
  qed
  from parseIfd_wide[OF True c] assms
  have le: "toNumber (unat off) + 8 + toNumber (unat c) * 20 + 8 \<le> length v"
    by (cases "length v < toNumber (unat off) + 8 + toNumber (unat c) * 20 + 8") auto
  with parseIfd_wide[OF True c] assms have "length (entries d) = toNumber (unat c)" by auto
  with le show ?thesis by simp
qed

lemma parseIfd_fits_exact:
  assumes "parseIfd v off h = Inr d" and "length v \<le> 2 ^ 52"
  shows "unat off + 6 + 12 * length (entries d) \<le> length v"
proof -
  from parseIfd_fits[OF assms(1)] have f: "toNumber (unat off) + 6 + 12 * length (entries d) \<le> length v" .
  have "unat off < 2 ^ 53"
  proof (rule ccontr)
    assume "\<not> unat off < 2 ^ 53"
    then have "2 ^ 53 \<le> toNumber (unat off)" using toNumber_large[of "unat off"] by simp
    with f assms(2) show False by simp
  qed
  then have "toNumber (unat off) = unat off" by (rule toNumber_small)
  with f show ?thesis by simp
qed

lemma chain_parsed: "chain v h off ds \<Longrightarrow> d \<in> set ds \<Longrightarrow> parseIfd v (offset d) h = Inr d"
proof (induction rule: chain.induct)
  case chain_end
  then show ?case by simp
next
  case (chain_next off ifd ds)
  from chain_next.hyps(2) have "offset ifd = off" by (rule parseIfd_offset)
  with chain_next show ?case by auto
qed

lemma parseTiff_Inr:
  assumes "parseTiff v = Inr s"
  shows "parseAllIfds v (header s) = Inr (ifds s)"
  using assms by (auto simp: parseTiff_def split: sum.splits)

lemma parsed_estimate_small:
  assumes "parseTiff v = Inr s" and "ifds s \<noteq> []" and "length v \<le> 2 ^ 52"
  shows "spec_lastIfdEnd (ifds s) < 2 ^ 53"
proof -
  have "parseAllIfds_loop v (header s) [] {} (firstIfdOffset (header s)) = Inr (ifds s)"
    using parseTiff_Inr[OF assms(1)] by (simp add: parseAllIfds_def)
  from loop_Inr[OF this] have c: "chain v (header s) (firstIfdOffset (header s)) (ifds s)" by auto
  have each: "unat (offset d) + 6 + 12 * length (entries d) \<le> length v" if "d \<in> set (ifds s)" for d
    using parseIfd_fits_exact[OF chain_parsed[OF c that] assms(3)] .
  have "Max (set (map (\<lambda>d. unat (offset d)) (ifds s))) \<in> set (map (\<lambda>d. unat (offset d)) (ifds s))"
    using assms(2) by (intro Max_in) simp_all
  then obtain d where d: "d \<in> set (ifds s)"
    and m: "Max (set (map (\<lambda>d. unat (offset d)) (ifds s))) = unat (offset d)" by auto
  have 1: "unat (offset d) + 6 \<le> length v" using each[OF d] by simp
  have "last (ifds s) \<in> set (ifds s)" using assms(2) by simp
  from each[OF this] have 2: "6 + 12 * length (entries (last (ifds s))) \<le> length v" by simp
  have "spec_lastIfdEnd (ifds s) < 2 * length v" unfolding spec_lastIfdEnd_def m using 1 2 by simp
  also have "\<dots> \<le> 2 * 2 ^ 52" using assms(3) by simp
  finally show ?thesis by simp
qed

text \<open>
  C3. For a structure that \<open>parseTiff\<close> returns, from a buffer of at most \<open>2^52\<close>
  bytes, with at least one directory, the warnings of \<open>validate\<close> are the
  specification's: with the estimate the maximum \<open>selfOffset\<close> of all directories plus
  \<open>6 + 12 \<times> entryCount\<close> of the last directory, there is the one warning
  \<open>Tile data may be interleaved with IFDs.\<close> exactly when some directory has a
  tile-offsets tag and the least such value is below the estimate, and no warning
  otherwise. The constants 6 and 12 do not depend on the header, nor does anything else in
  the result, and the warning has no influence on \<open>valid\<close>, which holds exactly when every
  directory is tiled.
\<close>

theorem validate_interleaving_warning:
  "parseTiff v = Inr s \<Longrightarrow> ifds s \<noteq> [] \<Longrightarrow> length v \<le> 2 ^ 52 \<Longrightarrow>
     warnings (validate s) = spec_warnings (ifds s)
     \<and> (valid (validate s) \<longleftrightarrow> (\<forall>d \<in> set (ifds s). isTiled d))
     \<and> validate (s\<lparr>header := h\<rparr>) = validate s"
proof (intro conjI)
  assume a: "parseTiff v = Inr s" "ifds s \<noteq> []" "length v \<le> 2 ^ 52"
  show "warnings (validate s) = spec_warnings (ifds s)"
    using a(2) parsed_estimate_small[OF a] by (rule validate_warnings_spec)
  show "valid (validate s) \<longleftrightarrow> (\<forall>d \<in> set (ifds s). isTiled d)"
    using a(2) by (rule validate_valid_iff)
  show "validate (s\<lparr>header := h\<rparr>) = validate s" by (simp add: validate_def)
qed

theorem validate_interleaving_warning_witness:
  "parseTiff [0x49, 0x49, 0x2A, 0x00, 0x08, 0x00, 0x00, 0x00,
              0x01, 0x00,
              0x44, 0x01, 0x04, 0x00, 0x01, 0x00, 0x00, 0x00, 0x14, 0x00, 0x00, 0x00,
              0x00, 0x00, 0x00, 0x00] =
     Inr \<lparr>header = \<lparr>bigTiff = False, littleEndian = True, firstIfdOffset = 8\<rparr>,
          ifds = [\<lparr>offset = 8,
                   entries = [\<lparr>tag = 324, type = 4, count = 1, val = 20\<rparr>],
                   nextIfdOffset = 0\<rparr>]\<rparr>
   \<and> warnings (validate
        \<lparr>header = \<lparr>bigTiff = False, littleEndian = True, firstIfdOffset = 8\<rparr>,
         ifds = [\<lparr>offset = 8,
                  entries = [\<lparr>tag = 324, type = 4, count = 1, val = 20\<rparr>],
                  nextIfdOffset = 0\<rparr>]\<rparr>) = [''Tile data may be interleaved with IFDs.'']
   \<and> \<not> valid (validate
        \<lparr>header = \<lparr>bigTiff = False, littleEndian = True, firstIfdOffset = 8\<rparr>,
         ifds = [\<lparr>offset = 8,
                  entries = [\<lparr>tag = 324, type = 4, count = 1, val = 20\<rparr>],
                  nextIfdOffset = 0\<rparr>]\<rparr>)"
proof -
  let ?v = "[0x49, 0x49, 0x2A, 0x00, 0x08, 0x00, 0x00, 0x00,
              0x01, 0x00,
              0x44, 0x01, 0x04, 0x00, 0x01, 0x00, 0x00, 0x00, 0x14, 0x00, 0x00, 0x00,
              0x00, 0x00, 0x00, 0x00] :: DataView"
  let ?s = "\<lparr>header = \<lparr>bigTiff = False, littleEndian = True, firstIfdOffset = 8\<rparr>,
          ifds = [\<lparr>offset = 8,
                   entries = [\<lparr>tag = 324, type = 4, count = 1, val = 20\<rparr>],
                   nextIfdOffset = 0\<rparr>]\<rparr>"
  have p: "parseTiff ?v = Inr ?s"
    by (simp add: parseTiff_def parseHeader_def parseAllIfds_def parseAllIfds_loop.simps
          MAX_IFDS_def parseIfd_def parseIfd_entries.simps parseIfdEntry_def getUint16_def
          getUint32_def getUint_def be_nat_def toNumber_def)
  have ne: "ifds ?s \<noteq> []" by simp
  have len: "length ?v \<le> 2 ^ 52" by simp
  from validate_interleaving_warning[OF p ne len]
  have w: "warnings (validate ?s) = spec_warnings (ifds ?s)"
    and t: "valid (validate ?s) \<longleftrightarrow> (\<forall>d \<in> set (ifds ?s). isTiled d)" by blast+
  have "spec_warnings (ifds ?s) = [''Tile data may be interleaved with IFDs.'']"
    by (simp add: spec_warnings_def spec_tileDataOffsets_def spec_lastIfdEnd_def getTagValue_def)
  moreover have "\<not> (\<forall>d \<in> set (ifds ?s). isTiled d)"
    by (simp add: isTiled_def getTagValue_def TileWidth_def)
  ultimately show ?thesis using p w t by simp
qed

end
